theory Spec2Isabelle
  imports Main "HOL-Library.AList"
begin

section \<open>JavaScript values used by the editor modules\<close>

text \<open>
  A JavaScript string is a sequence of UTF-16 code units. It is modelled as the list of
  its code units, each a natural number below 65536. \<open>js\<close> reads an ASCII literal.
\<close>

type_synonym jsstring = "nat list"

definition js :: "string \<Rightarrow> jsstring" where
  "js s = map of_char s"

datatype js_error = TypeError | URIError

text \<open>\<open>s.includes(sub)\<close> (named \<open>str_includes\<close> here): \<open>sub\<close> occurs in \<open>s\<close> as a contiguous run of code units.\<close>

fun startsWith :: "jsstring \<Rightarrow> jsstring \<Rightarrow> bool" where
  "startsWith s [] = True"
| "startsWith [] (c # sub) = False"
| "startsWith (d # s) (c # sub) = (d = c \<and> startsWith s sub)"

fun str_includes :: "jsstring \<Rightarrow> jsstring \<Rightarrow> bool" where
  "str_includes [] sub = (sub = [])"
| "str_includes (d # s) sub = (startsWith (d # s) sub \<or> str_includes s sub)"

text \<open>\<open>arr.join(sep)\<close> on an array of strings.\<close>

fun join :: "jsstring \<Rightarrow> jsstring list \<Rightarrow> jsstring" where
  "join sep [] = []"
| "join sep [x] = x"
| "join sep (x # y # xs) = x @ sep @ join sep (y # xs)"

section \<open>The component registry (class \<open>ComponentRegister\<close>)\<close>

text \<open>
  A component is the object \<open>{ id, content }\<close> that a REGISTER message carries. The
  registry \<open>this.components\<close> is a plain object. Its values are whatever \<open>register\<close>
  stored: a component object or, when \<open>register\<close> is handed a string, that string.
  A lookup of a key that is not there gives \<open>undefined\<close>, here \<open>None\<close>.
\<close>

record component =
  comp_id :: jsstring
  content :: jsstring

datatype jsvalue = Str jsstring | Obj component

text \<open>
  The own properties of a plain object, in the order in which they were created.
  Assigning to an existing key keeps its place, a new key goes to the end, \<open>delete\<close>
  removes the key. Keys are taken not to name a member of \<open>Object.prototype\<close>
  (\<open>constructor\<close>, \<open>toString\<close>, \<open>__proto__\<close>, ...): the prototype chain is not modelled.
\<close>

type_synonym jsobject = "(jsstring \<times> jsvalue) list"

definition get_prop :: "jsobject \<Rightarrow> jsstring \<Rightarrow> jsvalue option" where
  "get_prop obj k = map_of obj k"

definition set_prop :: "jsobject \<Rightarrow> jsstring \<Rightarrow> jsvalue \<Rightarrow> jsobject" where
  "set_prop obj k v = AList.update k v obj"

definition delete_prop :: "jsobject \<Rightarrow> jsstring \<Rightarrow> jsobject" where
  "delete_prop obj k = AList.delete k obj"

text \<open>
  \<open>Object.keys\<close> lists the keys that are array indices first, in ascending numeric
  order, and then the other keys in creation order. An array index is the canonical
  decimal form of an integer from 0 to \<open>2^32 - 2\<close>.
\<close>

definition is_digit :: "nat \<Rightarrow> bool" where
  "is_digit c = (48 \<le> c \<and> c \<le> 57)"

definition index_value :: "jsstring \<Rightarrow> nat" where
  "index_value k = foldl (\<lambda>a d. 10 * a + (d - 48)) 0 k"

definition is_array_index :: "jsstring \<Rightarrow> bool" where
  "is_array_index k =
     (k \<noteq> [] \<and> list_all is_digit k \<and> (k = [48] \<or> hd k \<noteq> 48) \<and> index_value k < 4294967295)"

definition Object_keys :: "jsobject \<Rightarrow> jsstring list" where
  "Object_keys obj =
     sort_key index_value (filter is_array_index (map fst obj))
     @ filter (\<lambda>k. \<not> is_array_index k) (map fst obj)"

text \<open>
  \<open>const { id } = component\<close> reads the property \<open>id\<close>. A string has no such property, so
  the result is \<open>undefined\<close> and the key it is stored under is the text \<open>undefined\<close>.
\<close>

definition id_key :: "jsvalue \<Rightarrow> jsstring" where
  "id_key v = (case v of Obj c \<Rightarrow> comp_id c | Str s \<Rightarrow> js ''undefined'')"

definition register :: "jsvalue \<Rightarrow> jsobject \<Rightarrow> jsobject" where
  "register component components = set_prop components (id_key component) component"

definition unregister :: "jsstring \<Rightarrow> jsobject \<Rightarrow> jsobject" where
  "unregister i components = delete_prop components i"

text \<open>
  \<open>getType\<close> pushes \<open>this.components[key]\<close> for the keys that contain the type. The keys
  are those of the object, so the lookup always finds a value.
\<close>

definition getType :: "jsstring \<Rightarrow> jsobject \<Rightarrow> jsvalue list" where
  "getType ty components =
     foldl (\<lambda>arr key.
              if str_includes key ty
              then (case get_prop components key of Some v \<Rightarrow> arr @ [v] | None \<Rightarrow> arr)
              else arr)
       [] (Object_keys components)"

definition dump :: "jsobject \<Rightarrow> jsobject" where
  "dump components = components"

section \<open>The save coordinator\<close>

subsection \<open>The state chart\<close>

datatype state = idle | submitting | error

datatype event = SUBMITTING | COMPLETE | ERROR | RESET

definition stateChart_initial :: state where
  "stateChart_initial = idle"

fun stateChart_on :: "state \<Rightarrow> (event \<times> state) list" where
  "stateChart_on idle = [(SUBMITTING, submitting)]"
| "stateChart_on submitting = [(COMPLETE, idle), (ERROR, error)]"
| "stateChart_on error = [(RESET, idle)]"

text \<open>
  Modelled from the spec: the class \<open>StateMachine\<close> of \<open>utils.js\<close> is not among the
  sources. Its \<open>send\<close> follows the transition table of the chart it was built from, and
  an event that the table does not list for the current state leaves the state as it is.
\<close>

definition send :: "state \<Rightarrow> event \<Rightarrow> state" where
  "send s e = (case map_of (stateChart_on s) e of Some s' \<Rightarrow> s' | None \<Rightarrow> s)"

subsection \<open>Messages and the handler\<close>

text \<open>
  A message of the channel is \<open>{ type, data }\<close>: SAVE carries a partial \<open>{ id, content }\<close>
  or nothing, UNREGISTER carries an id, REGISTER carries a component. Any other type is
  ignored by the \<open>default\<close> branch.
\<close>

datatype message =
    SAVE "(jsstring \<times> jsstring) option"
  | UNREGISTER jsstring
  | REGISTER component
  | OTHER

record coordinator =
  components :: jsobject
  machine :: state

text \<open>
  The body of the request that \<open>savePage\<close> hands to \<open>fetch\<close>. A field read from a stored
  string is \<open>undefined\<close>, here \<open>None\<close>.
\<close>

record snapshot =
  body :: jsstring
  title :: "jsstring option"
  old_title :: jsstring
  tags :: "jsstring option"
  metadata :: "jsstring option"

text \<open>
  Reading \<open>v.content\<close>: a \<open>TypeError\<close> on \<open>undefined\<close>, \<open>undefined\<close> on a string.
  Writing \<open>v.content = c\<close>: a \<open>TypeError\<close> on \<open>undefined\<close> and, the file being a module
  and so strict code, on a string as well.
\<close>

definition read_content :: "jsvalue option \<Rightarrow> js_error + jsstring option" where
  "read_content v =
     (case v of
        None \<Rightarrow> Inl TypeError
      | Some (Str s) \<Rightarrow> Inr None
      | Some (Obj c) \<Rightarrow> Inr (Some (content c)))"

definition write_content :: "jsvalue option \<Rightarrow> jsstring \<Rightarrow> js_error + jsvalue" where
  "write_content v c =
     (case v of Some (Obj b) \<Rightarrow> Inr (Obj (b\<lparr>content := c\<rparr>)) | _ \<Rightarrow> Inl TypeError)"

text \<open>\<open>.map((b) => b.content)\<close> over stored values, then \<open>join\<close>, which prints
  \<open>undefined\<close> as the empty string.\<close>

definition content_text :: "jsvalue \<Rightarrow> jsstring" where
  "content_text v = (case v of Obj c \<Rightarrow> content c | Str s \<Rightarrow> [])"

text \<open>
  The result of running a handler: the coordinator as the handler left it, the requests
  handed to \<open>fetch\<close>, and the exception that escaped, if one did. An exception leaves
  the mutations made before it in place.
\<close>

type_synonym outcome = "coordinator \<times> snapshot list \<times> js_error option"

definition savePage :: "jsstring \<Rightarrow> (jsstring \<times> jsstring) option \<Rightarrow> coordinator \<Rightarrow> outcome" where
  "savePage CURRENT_TITLE messageData st =
     (let st1 = st\<lparr>machine := send (machine st) SUBMITTING\<rparr> in
      case (case messageData of
              None \<Rightarrow> Inr st1
            | Some (i, c) \<Rightarrow>
                (case write_content (get_prop (components st1) i) c of
                   Inl e \<Rightarrow> Inl e
                 | Inr v \<Rightarrow> Inr (st1\<lparr>components := set_prop (components st1) i v\<rparr>))) of
        Inl e \<Rightarrow> (st1, [], Some e)
      | Inr st2 \<Rightarrow>
          (case read_content (get_prop (components st2) (js ''title'')) of
             Inl e \<Rightarrow> (st2, [], Some e)
           | Inr title' \<Rightarrow>
               (let body' = join (js [CHR 0x0A])
                              (map content_text (getType (js ''block'') (components st2))) in
                case read_content (get_prop (components st2) (js ''tag'')) of
                  Inl e \<Rightarrow> (st2, [], Some e)
                | Inr tags' \<Rightarrow>
                    (case read_content (get_prop (components st2) (js ''metadata'')) of
                       Inl e \<Rightarrow> (st2, [], Some e)
                     | Inr metadata' \<Rightarrow>
                         (st2,
                          [\<lparr>body = body', title = title', old_title = CURRENT_TITLE,
                            tags = tags', metadata = metadata'\<rparr>],
                          None)))))"

text \<open>
  \<open>handleMessage\<close>: the SAVE case ends with \<open>break\<close>; the UNREGISTER case has none, so
  control falls through into the REGISTER case with the same \<open>messageData\<close>, the id.
\<close>

definition handleMessage :: "jsstring \<Rightarrow> message \<Rightarrow> coordinator \<Rightarrow> outcome" where
  "handleMessage CURRENT_TITLE m st =
     (case m of
        SAVE messageData \<Rightarrow>
          (if machine st = idle then savePage CURRENT_TITLE messageData st else (st, [], None))
      | UNREGISTER i \<Rightarrow>
          (st\<lparr>components := register (Str i) (unregister i (components st))\<rparr>, [], None)
      | REGISTER c \<Rightarrow> (st\<lparr>components := register (Obj c) (components st)\<rparr>, [], None)
      | OTHER \<Rightarrow> (st, [], None))"

subsection \<open>Settling of the request\<close>

text \<open>
  \<open>fetch\<close> settles once: it resolves with a response that has a status, or it rejects.
  The \<open>then\<close> callback runs on a response and acts only below status 400; the \<open>catch\<close>
  callback runs on a rejection, and on an exception of the \<open>then\<close> callback.
  \<open>updateMRU\<close> of \<open>dom.js\<close> is not among the sources: whether it returns or throws is
  the parameter \<open>mru_ok\<close>.
\<close>

datatype response = Resolved nat | Rejected

definition on_catch :: "coordinator \<Rightarrow> coordinator" where
  "on_catch st = st\<lparr>machine := send (machine st) ERROR\<rparr>"

definition on_then :: "bool \<Rightarrow> nat \<Rightarrow> coordinator \<Rightarrow> coordinator" where
  "on_then mru_ok status st =
     (if status < 400
      then (if mru_ok then st\<lparr>machine := send (machine st) COMPLETE\<rparr> else on_catch st)
      else st)"

definition settle :: "bool \<Rightarrow> response \<Rightarrow> coordinator \<Rightarrow> coordinator" where
  "settle mru_ok r st = (case r of Resolved status \<Rightarrow> on_then mru_ok status st | Rejected \<Rightarrow> on_catch st)"


subsection \<open>The event loop\<close>

text \<open>
  Messages are handled one at a time, in arrival order. An exception that escapes a
  handler ends that handler only; the next message is handled on the state it left.
\<close>

fun handleMessages :: "jsstring \<Rightarrow> message list \<Rightarrow> coordinator \<Rightarrow> coordinator \<times> snapshot list" where
  "handleMessages T [] st = (st, [])"
| "handleMessages T (m # ms) st =
     (case handleMessage T m st of (st', ws, e) \<Rightarrow>
        (case handleMessages T ms st' of (st'', ws') \<Rightarrow> (st'', ws @ ws')))"

text \<open>
  What can happen to a coordinator: a message arrives, a request that is in flight
  settles, or the machine is sent \<open>RESET\<close>. The second component of the pair counts the
  requests handed to \<open>fetch\<close> that have not settled yet; nothing settles when it is 0.
  Modelled from the spec: no code under the sources sends \<open>RESET\<close> (the machine is a
  private field); the spec has it triggered from outside, in any state.
\<close>

datatype input = Message message | Settle bool response | Reset

fun step :: "jsstring \<Rightarrow> input \<Rightarrow> coordinator \<times> nat \<Rightarrow> coordinator \<times> nat" where
  "step T (Message m) (st, n) =
     (case handleMessage T m st of (st', ws, e) \<Rightarrow> (st', n + length ws))"
| "step T (Settle mru_ok r) (st, n) = (if n = 0 then (st, n) else (settle mru_ok r st, n - 1))"
| "step T Reset (st, n) = (st\<lparr>machine := send (machine st) RESET\<rparr>, n)"

definition in_flight_inv :: "coordinator \<times> nat \<Rightarrow> bool" where
  "in_flight_inv x = (snd x = 0 \<or> (snd x = 1 \<and> machine (fst x) = submitting))"

subsection \<open>The registry as the spec words it, and an example page\<close>

text \<open>
  The spec's \<open>getByPrefix\<close>: all components whose id contains the prefix, in registry
  order, that is, in the order of first insertion.
\<close>

definition getByPrefix_spec :: "jsstring \<Rightarrow> jsobject \<Rightarrow> jsvalue list" where
  "getByPrefix_spec typePrefix registry =
     map snd (filter (\<lambda>(k, v). str_includes k typePrefix) registry)"

definition component_of :: "string \<Rightarrow> string \<Rightarrow> component" where
  "component_of i c = \<lparr>comp_id = js i, content = js c\<rparr>"

text \<open>The registry of a page after its title, three blocks, tag and metadata registered.\<close>

definition example_page :: jsobject where
  "example_page =
     [(js ''title'', Obj (component_of ''title'' ''Home'')),
      (js ''block-1'', Obj (component_of ''block-1'' ''one'')),
      (js ''block-2'', Obj (component_of ''block-2'' ''two'')),
      (js ''block-3'', Obj (component_of ''block-3'' ''three'')),
      (js ''tag'', Obj (component_of ''tag'' ''t'')),
      (js ''metadata'', Obj (component_of ''metadata'' ''m''))]"

section \<open>Strings and regular expressions of the codec\<close>

subsection \<open>String functions\<close>

text \<open>\<open>s.split(sep)\<close> for a separator of one code unit: always at least one piece.\<close>

fun split_acc :: "nat \<Rightarrow> jsstring \<Rightarrow> jsstring \<Rightarrow> jsstring list" where
  "split_acc sep acc [] = [rev acc]"
| "split_acc sep acc (c # s) =
     (if c = sep then rev acc # split_acc sep [] s else split_acc sep (c # acc) s)"

definition split :: "nat \<Rightarrow> jsstring \<Rightarrow> jsstring list" where
  "split sep s = split_acc sep [] s"

text \<open>
  The replacement text of \<open>replace\<close> and \<open>replaceAll\<close> is a template: \<open>$$\<close> stands for a
  dollar sign, \<open>$&\<close> for the matched text, \<open>$`\<close> for the text preceding the match and \<open>$'\<close>
  for the text following it. The search value being a string, there are no captures, and a
  dollar sign preceding any other character stands for itself.
\<close>

fun getSubstitution :: "jsstring \<Rightarrow> jsstring \<Rightarrow> jsstring \<Rightarrow> jsstring \<Rightarrow> jsstring" where
  "getSubstitution matched preceding following [] = []"
| "getSubstitution matched preceding following [c] = [c]"
| "getSubstitution matched preceding following (c # d # t) =
     (if c = 36 \<and> d = 36 then 36 # getSubstitution matched preceding following t
      else if c = 36 \<and> d = 38 then matched @ getSubstitution matched preceding following t
      else if c = 36 \<and> d = 96 then preceding @ getSubstitution matched preceding following t
      else if c = 36 \<and> d = 39 then following @ getSubstitution matched preceding following t
      else c # getSubstitution matched preceding following (d # t))"

text \<open>
  \<open>s.replace(pat, rep)\<close> with a string \<open>pat\<close>: the first occurrence of \<open>pat\<close> is replaced,
  and \<open>s\<close> is returned as it is when there is none. \<open>preceding\<close> is the text already passed,
  in reverse.
\<close>

fun replace_from :: "jsstring \<Rightarrow> jsstring \<Rightarrow> jsstring \<Rightarrow> jsstring \<Rightarrow> jsstring" where
  "replace_from pat rep preceding [] =
     (if pat = [] then getSubstitution pat (rev preceding) [] rep else [])"
| "replace_from pat rep preceding (c # t) =
     (if startsWith (c # t) pat
      then getSubstitution pat (rev preceding) (drop (length pat) (c # t)) rep
           @ drop (length pat) (c # t)
      else c # replace_from pat rep (c # preceding) t)"

definition replace :: "jsstring \<Rightarrow> jsstring \<Rightarrow> jsstring \<Rightarrow> jsstring" where
  "replace s pat rep = replace_from pat rep [] s"

text \<open>
  \<open>s.replaceAll(pat, rep)\<close> with a string \<open>pat\<close>: every occurrence is replaced, found from
  left to right without overlap. \<open>skip\<close> counts the code units of an occurrence that are
  still to be passed over. (An empty \<open>pat\<close> occurs preceding every code unit and at the end.)
\<close>

fun replaceAll_from :: "jsstring \<Rightarrow> jsstring \<Rightarrow> jsstring \<Rightarrow> nat \<Rightarrow> jsstring \<Rightarrow> jsstring" where
  "replaceAll_from pat rep preceding skip [] =
     (if skip = 0 \<and> pat = [] then getSubstitution pat (rev preceding) [] rep else [])"
| "replaceAll_from pat rep preceding skip (c # t) =
     (if 0 < skip then replaceAll_from pat rep (c # preceding) (skip - 1) t
      else if startsWith (c # t) pat
      then getSubstitution pat (rev preceding) (drop (length pat) (c # t)) rep
           @ (if pat = [] then c # replaceAll_from pat rep (c # preceding) 0 t
              else replaceAll_from pat rep (c # preceding) (length pat - 1) t)
      else c # replaceAll_from pat rep (c # preceding) 0 t)"

definition replaceAll :: "jsstring \<Rightarrow> jsstring \<Rightarrow> jsstring \<Rightarrow> jsstring" where
  "replaceAll s pat rep = replaceAll_from pat rep [] 0 s"

subsection \<open>Regular expressions\<close>

text \<open>
  The patterns of the module use character classes, the dot, literal text, sequence,
  alternation, the greedy star, the greedy bounded repetition \<open>{0,n}\<close> (\<open>?\<close> is \<open>{0,1}\<close>) and
  the end anchor. A regular expression object has its pattern and the flags \<open>i\<close> and \<open>g\<close>.
\<close>

datatype regex =
    Class "nat \<Rightarrow> bool"
  | Dot
  | Lit jsstring
  | Seq regex regex
  | Alt regex regex
  | Star regex
  | Rep nat regex
  | End

record regexp =
  source :: regex
  ignoreCase :: bool
  global :: bool

definition to_upper :: "nat \<Rightarrow> nat" where
  "to_upper c = (if 97 \<le> c \<and> c \<le> 122 then c - 32 else c)"

definition to_lower :: "nat \<Rightarrow> nat" where
  "to_lower c = (if 65 \<le> c \<and> c \<le> 90 then c + 32 else c)"

definition is_line_terminator :: "nat \<Rightarrow> bool" where
  "is_line_terminator c = (c = 10 \<or> c = 13 \<or> c = 8232 \<or> c = 8233)"

text \<open>
  Matching under the flag \<open>i\<close> compares canonical forms. All pattern characters and class
  members of the patterns with that flag are ASCII, and no character outside ASCII has an
  ASCII canonical form, so it is enough to fold the case of ASCII letters.
\<close>

definition class_matches :: "bool \<Rightarrow> (nat \<Rightarrow> bool) \<Rightarrow> nat \<Rightarrow> bool" where
  "class_matches ic P c = (P c \<or> (ic \<and> (P (to_upper c) \<or> P (to_lower c))))"

definition lit_matches :: "bool \<Rightarrow> jsstring \<Rightarrow> jsstring \<Rightarrow> bool" where
  "lit_matches ic w s = (if ic then map to_upper s = map to_upper w else s = w)"

text \<open>
  The backtracking matcher: \<open>matcher ic r s\<close> lists, in the order in which backtracking tries
  them, the rests of \<open>s\<close> following a match of \<open>r\<close> at its start. The first element is the
  match that the engine reports. An iteration of a repetition that consumes nothing is
  rejected.
\<close>

fun matcher :: "bool \<Rightarrow> regex \<Rightarrow> jsstring \<Rightarrow> jsstring list" where
  "matcher ic (Class P) s = (case s of [] \<Rightarrow> [] | c # t \<Rightarrow> if class_matches ic P c then [t] else [])"
| "matcher ic Dot s = (case s of [] \<Rightarrow> [] | c # t \<Rightarrow> if is_line_terminator c then [] else [t])"
| "matcher ic (Lit w) s =
     (if length w \<le> length s \<and> lit_matches ic w (take (length w) s) then [drop (length w) s] else [])"
| "matcher ic (Seq a b) s = concat (map (matcher ic b) (matcher ic a s))"
| "matcher ic (Alt a b) s = matcher ic a s @ matcher ic b s"
| "matcher ic (Star r) s =
     concat (map (\<lambda>s'. if length s' < length s then matcher ic (Star r) s' else []) (matcher ic r s)) @ [s]"
| "matcher ic (Rep n r) s =
     (case n of
        0 \<Rightarrow> [s]
      | Suc k \<Rightarrow>
          concat (map (\<lambda>s'. if length s' < length s then matcher ic (Rep k r) s' else []) (matcher ic r s))
          @ [s])"
| "matcher ic End s = (if s = [] then [s] else [])"

text \<open>
  The search of \<open>exec\<close>: the leftmost position, from index \<open>i\<close> on, at which the pattern
  matches; the result is that index and the matched text.
\<close>

fun exec_from :: "bool \<Rightarrow> regex \<Rightarrow> nat \<Rightarrow> jsstring \<Rightarrow> (nat \<times> jsstring) option" where
  "exec_from ic r i [] = (case matcher ic r [] of s' # _ \<Rightarrow> Some (i, []) | [] \<Rightarrow> None)"
| "exec_from ic r i (c # t) =
     (case matcher ic r (c # t) of
        s' # _ \<Rightarrow> Some (i, take (length (c # t) - length s') (c # t))
      | [] \<Rightarrow> exec_from ic r (Suc i) t)"

definition exec :: "regexp \<Rightarrow> jsstring \<Rightarrow> nat \<Rightarrow> (nat \<times> jsstring) option" where
  "exec re s lastIndex =
     (if length s < lastIndex then None
      else exec_from (ignoreCase re) (source re) lastIndex (drop lastIndex s))"

text \<open>
  \<open>re.test(s)\<close>: the result and the new \<open>lastIndex\<close>. Only a regular expression with the
  flag \<open>g\<close> reads and writes its \<open>lastIndex\<close>.
\<close>

definition test :: "regexp \<Rightarrow> jsstring \<Rightarrow> nat \<Rightarrow> bool \<times> nat" where
  "test re s lastIndex =
     (if global re
      then (case exec re s lastIndex of
              None \<Rightarrow> (False, 0)
            | Some (i, m) \<Rightarrow> (True, i + length m))
      else (exec re s 0 \<noteq> None, lastIndex))"

text \<open>
  \<open>s.matchAll(re)\<close>: the matched texts from left to right, the search starting at the
  \<open>lastIndex\<close> that \<open>re\<close> has at the call. The iterator works on a copy of \<open>re\<close>, so \<open>re\<close>
  keeps its \<open>lastIndex\<close>. After an empty match the search moves on by one code unit.
\<close>

function matchAll_loop :: "regexp \<Rightarrow> jsstring \<Rightarrow> nat \<Rightarrow> jsstring list" where
  "matchAll_loop re s lastIndex =
     (case exec re s lastIndex of
        None \<Rightarrow> []
      | Some (i, m) \<Rightarrow> m # matchAll_loop re s (if m = [] then i + 1 else i + length m))"
  by pat_completeness auto
termination
proof (relation "measure (\<lambda>(re, s, lastIndex). Suc (length s) - lastIndex)")
  show "wf (measure (\<lambda>(re, s, lastIndex). Suc (length s) - lastIndex))"
    by simp
next
  fix re :: regexp and s :: jsstring and lastIndex :: nat and x2 i m
  assume e: "exec re s lastIndex = Some x2" and x: "(i, m) = x2"
  have ge: "j \<le> k" if "exec_from ic r j t = Some (k, w)" for ic r j t k w
    using that
  proof (induction t arbitrary: j)
    case Nil
    then show ?case by (simp split: list.splits)
  next
    case (Cons c t)
    show ?case
    proof (cases "matcher ic r (c # t)")
      case Nil
      with Cons.prems have "exec_from ic r (Suc j) t = Some (k, w)" by simp
      from Cons.IH[OF this] show ?thesis by simp
    next
      case (Cons s' ss)
      with Cons.prems show ?thesis by simp
    qed
  qed
  from e x have "lastIndex \<le> length s" and "lastIndex \<le> i"
    by (auto simp: exec_def split: if_splits dest: ge)
  then show "((re, s, if m = [] then i + 1 else i + length m), re, s, lastIndex)
      \<in> measure (\<lambda>(re, s, lastIndex). Suc (length s) - lastIndex)"
    by (cases m) auto
qed

definition matchAll :: "jsstring \<Rightarrow> regexp \<Rightarrow> nat \<Rightarrow> jsstring list" where
  "matchAll s re lastIndex = matchAll_loop re s lastIndex"

subsection \<open>The patterns of the module\<close>

definition is_alpha :: "nat \<Rightarrow> bool" where
  "is_alpha c = ((97 \<le> c \<and> c \<le> 122) \<or> (65 \<le> c \<and> c \<le> 90))"

text \<open>The class \<open>\s\<close>: white space and line terminators.\<close>

definition is_space :: "nat \<Rightarrow> bool" where
  "is_space c =
     (c \<in> set [9, 10, 11, 12, 13, 32, 160, 5760, 8232, 8233, 8239, 8287, 12288, 65279]
      \<or> (8192 \<le> c \<and> c \<le> 8202))"

text \<open>The class of \<open>WIKI_LINK_REGEXP\<close>; 8217 is the typographic apostrophe.\<close>

definition wiki_class :: "nat \<Rightarrow> bool" where
  "wiki_class c = (is_alpha c \<or> is_digit c \<or> is_space c \<or> c \<in> set (js ''?-:_(|)'') \<or> c = 39 \<or> c = 8217)"

definition WIKI_LINK_REGEXP :: regexp where
  "WIKI_LINK_REGEXP =
     \<lparr>source = Seq (Lit (js ''[['')) (Seq (Seq (Class wiki_class) (Star (Class wiki_class))) (Lit (js '']]''))),
      ignoreCase = False, global = True\<rparr>"

definition url_class :: "nat \<Rightarrow> bool" where
  "url_class c = ((65 \<le> c \<and> c \<le> 90) \<or> is_digit c \<or> c \<in> set (js ''-+&@#/%=~_|$?!:.''))"

definition url_final_class :: "nat \<Rightarrow> bool" where
  "url_final_class c = ((65 \<le> c \<and> c \<le> 90) \<or> is_digit c \<or> c \<in> set (js ''+&@#/%=~_|$''))"

definition url_prefix :: regex where
  "url_prefix =
     Alt (Seq (Alt (Seq (Lit (js ''http'')) (Rep 1 (Lit (js ''s''))))
                   (Alt (Lit (js ''ftp'')) (Lit (js ''file''))))
              (Lit (js ''://'')))
         (Alt (Lit (js ''www.'')) (Lit (js ''ftp.'')))"

definition url_group :: regex where
  "url_group = Seq (Lit (js ''('')) (Seq (Star (Class url_class)) (Lit (js '')'')))"

definition URL_REGEXP :: regexp where
  "URL_REGEXP =
     \<lparr>source = Seq url_prefix
                 (Seq (Star (Alt url_group (Class url_class)))
                      (Alt url_group (Class url_final_class))),
      ignoreCase = True, global = True\<rparr>"

definition email_local_class :: "nat \<Rightarrow> bool" where
  "email_local_class c = (is_alpha c \<or> is_digit c \<or> c \<in> set (js ''.!#$%&*+/=?^_`{|}~-'') \<or> c = 39)"

definition is_alnum :: "nat \<Rightarrow> bool" where
  "is_alnum c = (is_alpha c \<or> is_digit c)"

definition email_label :: regex where
  "email_label =
     Seq (Class is_alnum)
         (Rep 1 (Seq (Rep 61 (Class (\<lambda>c. is_alnum c \<or> c = 45))) (Class is_alnum)))"

definition EMAIL_REGEXP :: regexp where
  "EMAIL_REGEXP =
     \<lparr>source = Seq (Seq (Class email_local_class) (Star (Class email_local_class)))
                 (Seq (Lit (js ''@''))
                      (Seq email_label (Star (Seq (Lit (js ''.'')) email_label)))),
      ignoreCase = True, global = True\<rparr>"

definition image_extensions :: "jsstring list" where
  "image_extensions =
     map js [''jpg'', ''jpeg'', ''png'', ''gif'', ''webp'', ''apng'', ''avif'', ''jfif'', ''pjpeg'', ''pjp'']"

text \<open>An alternation of literals, in the order written.\<close>

fun alternatives :: "jsstring list \<Rightarrow> regex" where
  "alternatives [] = Class (\<lambda>c. False)"
| "alternatives [w] = Lit w"
| "alternatives (w # v # ws) = Alt (Lit w) (alternatives (v # ws))"

definition IMAGE_REGEXP :: regexp where
  "IMAGE_REGEXP =
     \<lparr>source = Seq (Star Dot) (Seq (Lit (js ''.'')) (Seq (alternatives image_extensions) End)),
      ignoreCase = True, global = False\<rparr>"

subsection \<open>\<open>encodeURIComponent\<close> and \<open>decodeURIComponent\<close>\<close>

definition hex_digit :: "nat \<Rightarrow> nat" where
  "hex_digit n = (if n < 10 then 48 + n else 55 + n)"

definition percent :: "nat \<Rightarrow> jsstring" where
  "percent b = [37, hex_digit (b div 16), hex_digit (b mod 16)]"

definition utf8 :: "nat \<Rightarrow> nat list" where
  "utf8 v =
     (if v < 128 then [v]
      else if v < 2048 then [192 + v div 64, 128 + v mod 64]
      else if v < 65536 then [224 + v div 4096, 128 + (v div 64) mod 64, 128 + v mod 64]
      else [240 + v div 262144, 128 + (v div 4096) mod 64, 128 + (v div 64) mod 64, 128 + v mod 64])"

definition uri_unreserved :: "nat \<Rightarrow> bool" where
  "uri_unreserved c = (is_alpha c \<or> is_digit c \<or> c \<in> set (js ''-_.!~*()'') \<or> c = 39)"

text \<open>A lone surrogate makes \<open>encodeURIComponent\<close> throw a \<open>URIError\<close>.\<close>

fun encodeURIComponent :: "jsstring \<Rightarrow> js_error + jsstring" where
  "encodeURIComponent [] = Inr []"
| "encodeURIComponent (c # t) =
     (if uri_unreserved c then
        (case encodeURIComponent t of Inl e \<Rightarrow> Inl e | Inr r \<Rightarrow> Inr (c # r))
      else if 56320 \<le> c \<and> c \<le> 57343 then Inl URIError
      else if 55296 \<le> c \<and> c \<le> 56319 then
        (case t of
           [] \<Rightarrow> Inl URIError
         | d # t' \<Rightarrow>
             if 56320 \<le> d \<and> d \<le> 57343 then
               (case encodeURIComponent t' of
                  Inl e \<Rightarrow> Inl e
                | Inr r \<Rightarrow>
                    Inr (concat (map percent (utf8 ((c - 55296) * 1024 + (d - 56320) + 65536))) @ r))
             else Inl URIError)
      else
        (case encodeURIComponent t of
           Inl e \<Rightarrow> Inl e
         | Inr r \<Rightarrow> Inr (concat (map percent (utf8 c)) @ r)))"

text \<open>
  \<open>decodeURIComponent\<close> in two passes: the escapes \<open>%XX\<close> become octets (a \<open>%\<close> without two
  hexadecimal digits after it is a \<open>URIError\<close>), then runs of octets are read as UTF-8
  (an octet sequence that is not the UTF-8 form of a code point is a \<open>URIError\<close>).
\<close>

datatype uri_token = Unit nat | Octet nat

definition hex_value :: "nat \<Rightarrow> nat option" where
  "hex_value c =
     (if 48 \<le> c \<and> c \<le> 57 then Some (c - 48)
      else if 65 \<le> c \<and> c \<le> 70 then Some (c - 55)
      else if 97 \<le> c \<and> c \<le> 102 then Some (c - 87)
      else None)"

fun uri_tokens :: "jsstring \<Rightarrow> js_error + uri_token list" where
  "uri_tokens [] = Inr []"
| "uri_tokens (c # t) =
     (if c = 37 then
        (case t of
           h # l # t' \<Rightarrow>
             (case (hex_value h, hex_value l) of
                (Some x, Some y) \<Rightarrow>
                  (case uri_tokens t' of Inl e \<Rightarrow> Inl e | Inr r \<Rightarrow> Inr (Octet (16 * x + y) # r))
              | _ \<Rightarrow> Inl URIError)
         | _ \<Rightarrow> Inl URIError)
      else (case uri_tokens t of Inl e \<Rightarrow> Inl e | Inr r \<Rightarrow> Inr (Unit c # r)))"

definition continuation :: "uri_token \<Rightarrow> nat option" where
  "continuation k = (case k of Octet b \<Rightarrow> if 128 \<le> b \<and> b < 192 then Some (b - 128) else None | Unit c \<Rightarrow> None)"

definition code_units :: "nat \<Rightarrow> jsstring" where
  "code_units v =
     (if v < 65536 then [v] else [55296 + (v - 65536) div 1024, 56320 + (v - 65536) mod 1024])"

fun utf8_decode :: "uri_token list \<Rightarrow> js_error + jsstring" where
  "utf8_decode [] = Inr []"
| "utf8_decode (Unit c # r) = (case utf8_decode r of Inl e \<Rightarrow> Inl e | Inr s \<Rightarrow> Inr (c # s))"
| "utf8_decode (Octet b # r) =
     (if b < 128 then (case utf8_decode r of Inl e \<Rightarrow> Inl e | Inr s \<Rightarrow> Inr (b # s))
      else if 192 \<le> b \<and> b < 224 then
        (case r of
           k1 # r' \<Rightarrow>
             (case continuation k1 of
                Some x1 \<Rightarrow>
                  (let v = (b - 192) * 64 + x1 in
                   if 128 \<le> v then
                     (case utf8_decode r' of Inl e \<Rightarrow> Inl e | Inr s \<Rightarrow> Inr (code_units v @ s))
                   else Inl URIError)
              | None \<Rightarrow> Inl URIError)
         | _ \<Rightarrow> Inl URIError)
      else if 224 \<le> b \<and> b < 240 then
        (case r of
           k1 # k2 # r' \<Rightarrow>
             (case (continuation k1, continuation k2) of
                (Some x1, Some x2) \<Rightarrow>
                  (let v = (b - 224) * 4096 + x1 * 64 + x2 in
                   if 2048 \<le> v \<and> \<not> (55296 \<le> v \<and> v \<le> 57343) then
                     (case utf8_decode r' of Inl e \<Rightarrow> Inl e | Inr s \<Rightarrow> Inr (code_units v @ s))
                   else Inl URIError)
              | _ \<Rightarrow> Inl URIError)
         | _ \<Rightarrow> Inl URIError)
      else if 240 \<le> b \<and> b < 248 then
        (case r of
           k1 # k2 # k3 # r' \<Rightarrow>
             (case (continuation k1, continuation k2, continuation k3) of
                (Some x1, Some x2, Some x3) \<Rightarrow>
                  (let v = (b - 240) * 262144 + x1 * 4096 + x2 * 64 + x3 in
                   if 65536 \<le> v \<and> v \<le> 1114111 then
                     (case utf8_decode r' of Inl e \<Rightarrow> Inl e | Inr s \<Rightarrow> Inr (code_units v @ s))
                   else Inl URIError)
              | _ \<Rightarrow> Inl URIError)
         | _ \<Rightarrow> Inl URIError)
      else Inl URIError)"

definition decodeURIComponent :: "jsstring \<Rightarrow> js_error + jsstring" where
  "decodeURIComponent s = (case uri_tokens s of Inl e \<Rightarrow> Inl e | Inr ts \<Rightarrow> utf8_decode ts)"

section \<open>The markup codec\<close>

subsection \<open>Encoding: \<open>textToHtml\<close>\<close>

text \<open>
  \<open>match[1]\<close> of a wiki-link match: the group spans all that lies between the opening
  and the closing pair of brackets.
\<close>

definition group1 :: "jsstring \<Rightarrow> jsstring" where
  "group1 m = take (length m - 4) (drop 2 m)"

definition wiki_anchor :: "jsstring \<Rightarrow> jsstring \<Rightarrow> js_error + jsstring" where
  \<open>wiki_anchor target shown =
     (case encodeURIComponent target of
        Inl e \<Rightarrow> Inl e
      | Inr t \<Rightarrow> Inr (js ''<a href="/'' @ t @ js ''">'' @ shown @ js ''</a>''))\<close>

text \<open>The body of the loop of \<open>parseWikiLinks\<close>, run over the matches of the given text.\<close>

fun parseWikiLinks_loop :: "jsstring list \<Rightarrow> jsstring \<Rightarrow> js_error + jsstring" where
  "parseWikiLinks_loop [] finalString = Inr finalString"
| "parseWikiLinks_loop (m # rest) finalString =
     (let alias = split 124 (group1 m) in
      case (if 1 < length alias then wiki_anchor (alias ! 1) (alias ! 0)
            else wiki_anchor (group1 m) (group1 m)) of
        Inl e \<Rightarrow> Inl e
      | Inr a \<Rightarrow> parseWikiLinks_loop rest (replaceAll finalString m a))"

definition parseWikiLinks :: "jsstring \<Rightarrow> js_error + jsstring" where
  "parseWikiLinks text = parseWikiLinks_loop (matchAll text WIKI_LINK_REGEXP 0) text"

definition isSpecialtyUrl :: "jsstring \<Rightarrow> bool" where
  "isSpecialtyUrl url = fst (test IMAGE_REGEXP url 0)"

definition parseSpecialtyUrl :: "jsstring \<Rightarrow> jsstring" where
  \<open>parseSpecialtyUrl url =
     (if fst (test IMAGE_REGEXP url 0) then js ''<img src="'' @ url @ js ''">'' else [])\<close>

text \<open>The body of the loop of \<open>parseURLs\<close>: one match rewrites the text built so far.\<close>

definition parseURLs_body :: "jsstring \<Rightarrow> jsstring \<Rightarrow> jsstring" where
  \<open>parseURLs_body text url =
     (if isSpecialtyUrl url then replace text url (parseSpecialtyUrl url)
      else replace text url (js ''<a href="'' @ url @ js ''">'' @ url @ js ''</a>''))\<close>

text \<open>
  \<open>parseURLs\<close>: the matches are those of the text it is given, found from the \<open>lastIndex\<close>
  that the shared object \<open>URL_REGEXP\<close> has at the call.
\<close>

definition parseURLs :: "nat \<Rightarrow> jsstring \<Rightarrow> jsstring" where
  "parseURLs lastIndex text = foldl parseURLs_body text (matchAll text URL_REGEXP lastIndex)"

definition parseEmails_body :: "jsstring \<Rightarrow> jsstring \<Rightarrow> jsstring" where
  \<open>parseEmails_body text email =
     replace text email (js ''<a href="mailto:'' @ email @ js ''">'' @ email @ js ''</a>'')\<close>

definition parseEmails :: "jsstring \<Rightarrow> jsstring" where
  "parseEmails text = foldl parseEmails_body text (matchAll text EMAIL_REGEXP 0)"

text \<open>\<open>.map(f)\<close> where \<open>f\<close> may throw: the first exception ends the whole.\<close>

fun map_throwing :: "('a \<Rightarrow> js_error + 'b) \<Rightarrow> 'a list \<Rightarrow> js_error + 'b list" where
  "map_throwing f [] = Inr []"
| "map_throwing f (x # xs) =
     (case f x of
        Inl e \<Rightarrow> Inl e
      | Inr y \<Rightarrow> (case map_throwing f xs of Inl e \<Rightarrow> Inl e | Inr ys \<Rightarrow> Inr (y # ys)))"

definition encode_line :: "nat \<Rightarrow> jsstring \<Rightarrow> js_error + jsstring" where
  "encode_line lastIndex line =
     (case parseWikiLinks line of
        Inl e \<Rightarrow> Inl e
      | Inr linked \<Rightarrow> Inr (parseEmails (parseURLs lastIndex linked)))"

definition textToHtml :: "nat \<Rightarrow> jsstring \<Rightarrow> js_error + jsstring" where
  "textToHtml lastIndex text =
     (case map_throwing (encode_line lastIndex) (split 10 text) of
        Inl e \<Rightarrow> Inl e
      | Inr lines \<Rightarrow> Inr (join (js ''<br>'') lines))"

subsection \<open>Decoding: \<open>htmlToText\<close>\<close>

text \<open>
  The presentation tree is what the hosting environment parsed. \<open>htmlToText\<close> reads of an
  anchor its properties \<open>href\<close> (the resolved address), \<open>pathname\<close> and \<open>innerText\<close>, and of an
  image its \<open>src\<close>; \<open>replaceWith\<close> of a string puts a text node in the element's place.
\<close>

record anchor =
  href :: jsstring
  pathname :: jsstring
  innerText :: jsstring

datatype node = Text jsstring | Anchor anchor | Img jsstring | Elem jsstring "node list"

text \<open>How a loop body ended: it ran to its end, it returned from the function, or it threw.\<close>

datatype completion = Normal | Return | Throw js_error

text \<open>
  The body of the first loop, for one anchor: the node that takes the anchor's place,
  the \<open>lastIndex\<close> of \<open>URL_REGEXP\<close> afterwards, and how the body ended.
\<close>

definition anchor_body :: "nat \<Rightarrow> anchor \<Rightarrow> node \<times> nat \<times> completion" where
  "anchor_body lastIndex a =
     (if str_includes (href a) (js ''mailto:'') then (Text (innerText a), lastIndex, Normal)
      else
        (case decodeURIComponent (pathname a) of
           Inl e \<Rightarrow> (Anchor a, lastIndex, Throw e)
         | Inr decoded \<Rightarrow>
             (let path = drop 1 decoded;
                  linkedPage = innerText a;
                  t = test URL_REGEXP linkedPage lastIndex
              in if fst t then (Text linkedPage, snd t, Return)
                 else if path = linkedPage then (Text (js ''[['' @ linkedPage @ js '']]''), snd t, Return)
                 else (Text (js ''[['' @ linkedPage @ js ''|'' @ path @ js '']]''), snd t, Normal))))"

text \<open>
  The first loop, over the anchors below the element in document order. Once a body has
  returned or thrown, the nodes that follow stay as they are.
\<close>

fun anchors_loop :: "nat \<Rightarrow> completion \<Rightarrow> node list \<Rightarrow> node list \<times> nat \<times> completion" where
  "anchors_loop lastIndex k [] = ([], lastIndex, k)"
| "anchors_loop lastIndex k (n # ns) =
     (if k \<noteq> Normal then (n # ns, lastIndex, k)
      else
        (case n of
           Anchor a \<Rightarrow>
             (case anchor_body lastIndex a of
                (n', l', k') \<Rightarrow>
                  (case anchors_loop l' k' ns of (ns', l'', k'') \<Rightarrow> (n' # ns', l'', k'')))
         | Elem tag kids \<Rightarrow>
             (case anchors_loop lastIndex k kids of
                (kids', l', k') \<Rightarrow>
                  (case anchors_loop l' k' ns of (ns', l'', k'') \<Rightarrow> (Elem tag kids' # ns', l'', k'')))
         | _ \<Rightarrow>
             (case anchors_loop lastIndex k ns of (ns', l'', k'') \<Rightarrow> (n # ns', l'', k''))))"

text \<open>The second loop: every image is replaced with its \<open>src\<close>.\<close>

fun images_loop :: "node list \<Rightarrow> node list" where
  "images_loop [] = []"
| "images_loop (Img src # ns) = Text src # images_loop ns"
| "images_loop (Elem tag kids # ns) = Elem tag (images_loop kids) # images_loop ns"
| "images_loop (n # ns) = n # images_loop ns"

text \<open>
  \<open>htmlToText\<close> on the nodes below \<open>el\<close>: the tree as the function leaves it, the \<open>lastIndex\<close>
  of \<open>URL_REGEXP\<close> afterwards, and how the function ended. The second loop runs only when
  the first has run to its end.
\<close>

definition htmlToText :: "nat \<Rightarrow> node list \<Rightarrow> node list \<times> nat \<times> completion" where
  "htmlToText lastIndex el =
     (case anchors_loop lastIndex Normal el of
        (ns, l, k) \<Rightarrow> if k = Normal then (images_loop ns, l, Normal) else (ns, l, k))"

text \<open>
  The text of a tree, as the DOM reports it: the text nodes and the visible text of the
  anchors, in document order.
\<close>

fun textContent :: "node list \<Rightarrow> jsstring" where
  "textContent [] = []"
| "textContent (Text s # ns) = s @ textContent ns"
| "textContent (Anchor a # ns) = innerText a @ textContent ns"
| "textContent (Img src # ns) = textContent ns"
| "textContent (Elem tag kids # ns) = textContent kids @ textContent ns"

subsection \<open>The image test as the spec words it\<close>



section \<open>Properties of the save coordinator\<close>

subsection \<open>Auxiliary facts\<close>

lemmas eval_defs = handleMessage_def savePage_def example_page_def component_of_def register_def
  unregister_def set_prop_def delete_prop_def id_key_def js_def send_def get_prop_def read_content_def
  write_content_def getType_def Object_keys_def is_array_index_def is_digit_def index_value_def
  content_text_def settle_def on_then_def on_catch_def AList.delete_eq getByPrefix_spec_def

lemma savePage_machine:
  "machine st = idle \<Longrightarrow> savePage T p st = (st', ws, e) \<Longrightarrow> machine st' = submitting \<and> length ws \<le> 1 \<and> (e = None \<longrightarrow> length ws = 1)"
  by (auto simp: savePage_def Let_def send_def split: option.splits sum.splits prod.splits)

lemma handleMessage_machine:
  "handleMessage T m st = (st', ws, e) \<Longrightarrow>
     (machine st' = machine st \<and> ws = []) \<or> (machine st = idle \<and> machine st' = submitting \<and> length ws \<le> 1)"
  using savePage_machine[of st T _ st' ws e]
  by (auto simp: handleMessage_def split: message.splits if_splits)

lemma save_dropped: "machine st \<noteq> idle \<Longrightarrow> handleMessage T (SAVE q) st = (st, [], None)"
  by (simp add: handleMessage_def)

lemma handleMessages_submitting:
  "machine st = submitting \<Longrightarrow> handleMessages T msgs st = (st', ws) \<Longrightarrow> machine st' = submitting \<and> ws = []"
proof (induction msgs arbitrary: st st' ws)
  case Nil
  then show ?case by simp
next
  case (Cons m msgs)
  obtain st1 ws1 e1 where h: "handleMessage T m st = (st1, ws1, e1)" by (cases "handleMessage T m st") auto
  with handleMessage_machine[OF h] Cons.prems(1) have m1: "machine st1 = submitting" "ws1 = []" by auto
  obtain st2 ws2 where r: "handleMessages T msgs st1 = (st2, ws2)" by (cases "handleMessages T msgs st1") auto
  from Cons.IH[OF m1(1) r] Cons.prems(2) h r m1 show ?case by simp
qed

lemma settle_machine: "machine (settle b r st) = submitting \<Longrightarrow> machine st = submitting"
  by (cases "machine st") (auto simp: settle_def on_then_def on_catch_def send_def split: response.splits if_splits)

lemma step_inv: "in_flight_inv x \<Longrightarrow> in_flight_inv (step T i x)"
proof (cases x)
  case (Pair st n)
  assume a: "in_flight_inv x"
  show ?thesis
  proof (cases i)
    case (Message m)
    obtain st1 ws1 e1 where h: "handleMessage T m st = (st1, ws1, e1)" by (cases "handleMessage T m st") auto
    from handleMessage_machine[OF h] a Pair Message h show ?thesis
      by (cases ws1) (auto simp: in_flight_inv_def)
  next
    case (Settle b r)
    with a Pair show ?thesis by (auto simp: in_flight_inv_def)
  next
    case Reset
    with a Pair show ?thesis by (auto simp: in_flight_inv_def send_def)
  qed
qed

lemma fold_inv: "in_flight_inv x \<Longrightarrow> in_flight_inv (fold (step T) is x)"
  by (induction "is" arbitrary: x) (simp_all add: step_inv)

lemma get_prop_set_prop: "get_prop (set_prop cs k v) k' = (if k' = k then Some v else get_prop cs k')"
  by (simp add: get_prop_def set_prop_def update_conv')

lemma settle_components: "components (settle mru_ok r st) = components st"
  by (simp add: settle_def on_then_def on_catch_def split: response.splits)

lemma settle_rejected_status: "400 \<le> status \<Longrightarrow> settle mru_ok (Resolved status) st = st"
  by (simp add: settle_def on_then_def)

lemma foldl_push:
  "foldl (\<lambda>arr key. if P key then (case g key of Some v \<Rightarrow> arr @ [v] | None \<Rightarrow> arr) else arr) acc ks
     = acc @ concat (map (\<lambda>k. case g k of Some v \<Rightarrow> [v] | None \<Rightarrow> []) (filter P ks))"
  by (induction ks arbitrary: acc) (simp_all split: option.splits)

lemma getType_eq:
  "getType ty cs
     = concat (map (\<lambda>k. case get_prop cs k of Some v \<Rightarrow> [v] | None \<Rightarrow> [])
                (filter (\<lambda>k. str_includes k ty) (Object_keys cs)))"
  by (simp add: getType_def foldl_push)

lemma get_prop_distinct: "distinct (map fst cs) \<Longrightarrow> (k, v) \<in> set cs \<Longrightarrow> get_prop cs k = Some v"
  by (simp add: get_prop_def)

lemma map_get_prop_keys:
  "distinct (map fst cs) \<Longrightarrow> set xs \<subseteq> set cs \<Longrightarrow>
     concat (map (\<lambda>k. case get_prop cs k of Some v \<Rightarrow> [v] | None \<Rightarrow> []) (filter P (map fst xs)))
       = map snd (filter (\<lambda>(k, v). P k) xs)"
  by (induction xs) (auto simp: get_prop_distinct)

lemma register_keys:
  "map fst (register v cs) = (if id_key v \<in> set (map fst cs) then map fst cs else map fst cs @ [id_key v])"
  by (simp add: register_def set_prop_def update_keys)

lemma register_distinct: "distinct (map fst cs) \<Longrightarrow> distinct (map fst (register v cs))"
  by (simp add: register_def set_prop_def distinct_update)

lemma unregister_distinct: "distinct (map fst cs) \<Longrightarrow> distinct (map fst (unregister i cs))"
  by (simp add: unregister_def delete_prop_def distinct_delete)

lemma savePage_distinct:
  "distinct (map fst (components st)) \<Longrightarrow> distinct (map fst (components (fst (savePage T p st))))"
  by (auto simp: savePage_def Let_def set_prop_def distinct_update split: option.splits sum.splits)

lemma handleMessage_distinct:
  "distinct (map fst (components st)) \<Longrightarrow>
     distinct (map fst (components (fst (handleMessage T m st))))"
  by (cases m) (simp_all add: handleMessage_def savePage_distinct register_distinct unregister_distinct)

lemma handleMessages_distinct:
  "distinct (map fst (components st)) \<Longrightarrow>
     distinct (map fst (components (fst (handleMessages T msgs st))))"
proof (induction msgs arbitrary: st)
  case Nil
  then show ?case by simp
next
  case (Cons m msgs)
  from handleMessage_distinct[OF Cons.prems, of T m]
  have "distinct (map fst (components (fst (handleMessage T m st))))" .
  from Cons.IH[OF this] show ?case
    by (auto split: prod.splits)
qed

subsection \<open>Failed writes\<close>

text \<open>
  Claim C2. A write that completes with a failing status (400 or above) should be handled
  like a network failure: the machine goes from \<open>submitting\<close> to \<open>error\<close>. The \<open>then\<close>
  callback has no branch for such a status, and \<open>catch\<close> runs on a rejection only. On the
  example page a SAVE issues one request; when the request is rejected the machine is in
  \<open>error\<close>, but when it resolves with status 500 the machine stays in \<open>submitting\<close>, a
  further SAVE is dropped, and \<open>RESET\<close> does not lead out of \<open>submitting\<close>.
\<close>

theorem rejected_write_leaves_submitting:
  "(case handleMessage (js ''Home'') (SAVE None) \<lparr>components = example_page, machine = idle\<rparr> of
      (st1, ws, e) \<Rightarrow>
        e = None \<and> length ws = 1 \<and> machine st1 = submitting
        \<and> machine (settle True Rejected st1) = error
        \<and> machine (settle True (Resolved 500) st1) = submitting
        \<and> handleMessage (js ''Home'') (SAVE None) (settle True (Resolved 500) st1)
            = (settle True (Resolved 500) st1, [], None)
        \<and> send (machine (settle True (Resolved 500) st1)) RESET = submitting)"
  by (simp add: eval_defs)

subsection \<open>UNREGISTER\<close>

text \<open>
  Claim C4. Handling UNREGISTER(id) should remove that id and add no key. The case has
  no \<open>break\<close>: after \<open>unregister\<close> the handler runs \<open>register\<close> on the id, which stores the
  id string under the key \<open>undefined\<close>.
\<close>

theorem unregister_falls_through_to_register:
  "handleMessage T (UNREGISTER (js ''block-1''))
     \<lparr>components = [(js ''title'', Obj (component_of ''title'' ''Home'')),
                    (js ''block-1'', Obj (component_of ''block-1'' ''one''))],
      machine = idle\<rparr>
   = (\<lparr>components = [(js ''title'', Obj (component_of ''title'' ''Home'')),
                      (js ''undefined'', Str (js ''block-1''))],
       machine = idle\<rparr>, [], None)"
  by (simp add: eval_defs)

subsection \<open>Exceptions of the handler\<close>




subsection \<open>Order of the registry\<close>

text \<open>
  Claim C9, as stated: \<open>getByPrefix\<close> returns the matching components in the order of
  first insertion. It fails for ids that are array indices: \<open>Object.keys\<close> lists those
  first and in numeric order, so after registering \<open>2\<close> and then \<open>1\<close> the component \<open>1\<close>
  comes first.
\<close>

theorem getType_array_index_order_counterexample:
  "getType [] (register (Obj (component_of ''1'' ''b'')) (register (Obj (component_of ''2'' ''a'')) []))
     = [Obj (component_of ''1'' ''b''), Obj (component_of ''2'' ''a'')]
   \<and> getByPrefix_spec [] (register (Obj (component_of ''1'' ''b'')) (register (Obj (component_of ''2'' ''a'')) []))
     = [Obj (component_of ''2'' ''a''), Obj (component_of ''1'' ''b'')]"
  by (simp add: eval_defs)

text \<open>
  Claim C9, amended. In a registry (an object, so with distinct keys, as
  \<open>handleMessages_distinct\<close> shows for every registry a coordinator builds) where no id that
  contains the prefix is an array index, \<open>getType\<close> returns the matching components in
  the order of first insertion; and registering a component whose id is present keeps
  the order of the keys, stores the new component under its id, leaves every other entry
  as it was, and \<open>getType\<close> on the result is again in first-insertion order. The witness
  is the page with \<open>block-1\<close>, \<open>block-2\<close>, \<open>block-3\<close> after \<open>block-2\<close> is registered again.
\<close>

theorem registry_order_non_index_keys:
  assumes "distinct (map fst cs)"
    and "\<forall>k \<in> set (map fst cs). str_includes k ty \<longrightarrow> \<not> is_array_index k"
  shows "getType ty cs = getByPrefix_spec ty cs
     \<and> (id_key v \<in> set (map fst cs) \<longrightarrow>
          map fst (register v cs) = map fst cs
          \<and> get_prop (register v cs) (id_key v) = Some v
          \<and> (\<forall>k. k \<noteq> id_key v \<longrightarrow> get_prop (register v cs) k = get_prop cs k)
          \<and> getType ty (register v cs) = getByPrefix_spec ty (register v cs))"
proof -
  have order: "getType ty xs = getByPrefix_spec ty xs"
    if d: "distinct (map fst xs)"
      and n: "\<forall>k \<in> set (map fst xs). str_includes k ty \<longrightarrow> \<not> is_array_index k" for xs
  proof -
    let ?P = "\<lambda>k. str_includes k ty"
    have "filter ?P (sort_key index_value (filter is_array_index (map fst xs))) = []"
      using n by (auto simp: filter_empty_conv)
    moreover have "filter ?P (filter (\<lambda>k. \<not> is_array_index k) (map fst xs)) = filter ?P (map fst xs)"
      unfolding filter_filter by (rule filter_cong) (use n in auto)
    ultimately have "filter ?P (Object_keys xs) = filter ?P (map fst xs)"
      by (simp add: Object_keys_def)
    then show ?thesis
      using map_get_prop_keys[OF d subset_refl, of ?P] by (simp add: getType_eq getByPrefix_spec_def)
  qed
  have "getType ty (register v cs) = getByPrefix_spec ty (register v cs)" if "id_key v \<in> set (map fst cs)"
    using that assms by (intro order) (simp_all add: register_distinct register_keys)
  moreover have "get_prop (register v cs) k = (if k = id_key v then Some v else get_prop cs k)" for k
    by (simp add: register_def get_prop_set_prop)
  ultimately show ?thesis
    using order[OF assms] by (simp add: register_keys)
qed

theorem registry_order_non_index_keys_witness:
  "distinct (map fst example_page)
   \<and> id_key (Obj (component_of ''block-2'' ''new'')) \<in> set (map fst example_page)
   \<and> getType (js ''block'') (register (Obj (component_of ''block-2'' ''new'')) example_page)
      = [Obj (component_of ''block-1'' ''one''), Obj (component_of ''block-2'' ''new''),
         Obj (component_of ''block-3'' ''three'')]"
proof -
  have d: "distinct (map fst example_page)"
    by (simp add: example_page_def js_def)
  have n: "\<forall>k \<in> set (map fst example_page). str_includes k (js ''block'') \<longrightarrow> \<not> is_array_index k"
    by (simp add: example_page_def js_def is_array_index_def is_digit_def)
  have i: "id_key (Obj (component_of ''block-2'' ''new'')) \<in> set (map fst example_page)"
    by (simp add: example_page_def js_def id_key_def component_of_def)
  have "getByPrefix_spec (js ''block'') (register (Obj (component_of ''block-2'' ''new'')) example_page)
      = [Obj (component_of ''block-1'' ''one''), Obj (component_of ''block-2'' ''new''),
         Obj (component_of ''block-3'' ''three'')]"
    by (simp add: getByPrefix_spec_def register_def set_prop_def id_key_def example_page_def
        component_of_def js_def)
  with registry_order_non_index_keys[OF d n, of "Obj (component_of ''block-2'' ''new'')"] d i
  show ?thesis by simp
qed

subsection \<open>The merge of a SAVE partial\<close>

text \<open>
  Claim C10. When a SAVE with a partial \<open>{id, content}\<close> is handled in the idle state and
  the id is registered, the component's content is overwritten with the partial's
  content; the request that is issued is assembled from the registry after the merge;
  and the merged content stays in the registry however the request settles.
\<close>

theorem save_partial_merge_persists:
  assumes "machine st = idle"
    and "get_prop (components st) i = Some (Obj b)"
    and "handleMessage T (SAVE (Some (i, c))) st = (st', ws, e)"
  shows "components st' = set_prop (components st) i (Obj (b\<lparr>content := c\<rparr>))
     \<and> get_prop (components st') i = Some (Obj (b\<lparr>content := c\<rparr>))
     \<and> (\<forall>w \<in> set ws.
           read_content (get_prop (components st') (js ''title'')) = Inr (title w)
         \<and> body w = join (js [CHR 0x0A]) (map content_text (getType (js ''block'') (components st')))
         \<and> read_content (get_prop (components st') (js ''tag'')) = Inr (tags w)
         \<and> read_content (get_prop (components st') (js ''metadata'')) = Inr (metadata w))
     \<and> (\<forall>mru_ok r. components (settle mru_ok r st') = components st')"
  using assms
  by (auto simp: handleMessage_def savePage_def write_content_def Let_def get_prop_set_prop
      settle_components split: sum.splits)

theorem save_partial_merge_persists_witness:
  "machine \<lparr>components = example_page, machine = idle\<rparr> = idle
   \<and> get_prop example_page (js ''block-2'') = Some (Obj (component_of ''block-2'' ''two''))
   \<and> (\<exists>st' w. handleMessage (js ''Home'') (SAVE (Some (js ''block-2'', js ''2!'')))
                 \<lparr>components = example_page, machine = idle\<rparr> = (st', [w], None)
        \<and> get_prop (components st') (js ''block-2'')
            = Some (Obj ((component_of ''block-2'' ''two'')\<lparr>content := js ''2!''\<rparr>))
        \<and> body w = join (js [CHR 0x0A]) (map content_text (getType (js ''block'') (components st')))
        \<and> (\<forall>mru_ok r. components (settle mru_ok r st') = components st'))"
proof -
  let ?st = "\<lparr>components = example_page, machine = idle\<rparr>"
  define st' where "st' = \<lparr>components = set_prop example_page (js ''block-2'')
      (Obj ((component_of ''block-2'' ''two'')\<lparr>content := js ''2!''\<rparr>)), machine = submitting\<rparr>"
  define w where "w = \<lparr>body = js ''one'' @ [10] @ js ''2!'' @ [10] @ js ''three'',
       title = Some (js ''Home''), old_title = js ''Home'', tags = Some (js ''t''), metadata = Some (js ''m'')\<rparr>"
  have m: "machine ?st = idle" by simp
  have g: "get_prop (components ?st) (js ''block-2'') = Some (Obj (component_of ''block-2'' ''two''))"
    by (simp add: eval_defs)
  have h: "handleMessage (js ''Home'') (SAVE (Some (js ''block-2'', js ''2!''))) ?st = (st', [w], None)"
    unfolding st'_def w_def by (simp add: eval_defs)
  from save_partial_merge_persists[OF m g h] m g h show ?thesis
    by auto
qed

subsection \<open>At most one save in flight\<close>

text \<open>
  Claim C3. A SAVE is acted on only in the idle state. When a first SAVE, handled in
  idle, has issued its request, the machine is in \<open>submitting\<close> and exactly one request
  was issued; a second SAVE arriving then (and in any state with the machine in
  \<open>submitting\<close>) issues nothing and changes neither the state nor the registry; whatever
  messages follow the first SAVE before its request settles, the requests issued are
  that one; and over every sequence of messages, settlements and resets, at most one
  request is in flight.
\<close>

theorem at_most_one_save_in_flight:
  assumes "machine st = idle"
    and "handleMessage T (SAVE p) st = (st1, ws1, None)"
  shows "length ws1 = 1 \<and> machine st1 = submitting
     \<and> handleMessage T (SAVE q) st1 = (st1, [], None)
     \<and> (\<forall>st2. machine st2 = submitting \<longrightarrow> handleMessage T (SAVE q) st2 = (st2, [], None))
     \<and> (\<forall>msgs. snd (handleMessages T (SAVE p # msgs) st) = ws1
            \<and> machine (fst (handleMessages T (SAVE p # msgs) st)) = submitting)
     \<and> (\<forall>inputs. snd (fold (step T) inputs (st, 0)) \<le> 1)"
proof -
  from assms have s: "savePage T p st = (st1, ws1, None)"
    by (simp add: handleMessage_def)
  from savePage_machine[OF assms(1) s] have a: "length ws1 = 1" "machine st1 = submitting"
    by simp_all
  have b: "handleMessage T (SAVE q) st2 = (st2, [], None)" if "machine st2 = submitting" for st2
    using that by (simp add: save_dropped)
  have c: "snd (handleMessages T (SAVE p # msgs) st) = ws1
      \<and> machine (fst (handleMessages T (SAVE p # msgs) st)) = submitting" for msgs
  proof -
    obtain st2 ws2 where r: "handleMessages T msgs st1 = (st2, ws2)"
      by (cases "handleMessages T msgs st1") auto
    from handleMessages_submitting[OF a(2) r] r assms(2) show ?thesis by simp
  qed
  have "in_flight_inv (st, 0)" by (simp add: in_flight_inv_def)
  then have d: "snd (fold (step T) inputs (st, 0)) \<le> 1" for inputs
    using fold_inv[of "(st, 0)" T inputs] by (auto simp: in_flight_inv_def)
  from a b c d show ?thesis by blast
qed

theorem at_most_one_save_in_flight_witness:
  "machine \<lparr>components = example_page, machine = idle\<rparr> = idle
   \<and> (\<exists>st1 w. handleMessage (js ''Home'') (SAVE None) \<lparr>components = example_page, machine = idle\<rparr>
                  = (st1, [w], None)
        \<and> machine st1 = submitting
        \<and> handleMessage (js ''Home'') (SAVE (Some (js ''title'', js ''New''))) st1 = (st1, [], None)
        \<and> snd (handleMessages (js ''Home'')
                 [SAVE None, SAVE (Some (js ''title'', js ''New'')), SAVE None]
                 \<lparr>components = example_page, machine = idle\<rparr>) = [w])"
proof -
  let ?st = "\<lparr>components = example_page, machine = idle\<rparr>"
  define w where "w = \<lparr>body = js ''one'' @ [10] @ js ''two'' @ [10] @ js ''three'',
       title = Some (js ''Home''), old_title = js ''Home'', tags = Some (js ''t''), metadata = Some (js ''m'')\<rparr>"
  have m: "machine ?st = idle" by simp
  have h: "handleMessage (js ''Home'') (SAVE None) ?st = (?st\<lparr>machine := submitting\<rparr>, [w], None)"
    unfolding w_def by (simp add: eval_defs)
  note t = at_most_one_save_in_flight[OF m h, of "Some (js ''title'', js ''New'')"]
  from t have t1: "machine (?st\<lparr>machine := submitting\<rparr>) = submitting"
    and t2: "handleMessage (js ''Home'') (SAVE (Some (js ''title'', js ''New'')))
        (?st\<lparr>machine := submitting\<rparr>) = (?st\<lparr>machine := submitting\<rparr>, [], None)"
    by blast+
  from t have t3: "snd (handleMessages (js ''Home'')
        (SAVE None # [SAVE (Some (js ''title'', js ''New'')), SAVE None]) ?st) = [w]"
    by blast
  from m h t1 t2 t3 show ?thesis
    by blast
qed

section \<open>Properties of the markup codec\<close>

lemmas codec_defs = js_def textToHtml_def encode_line_def parseWikiLinks_def parseURLs_def parseEmails_def parseURLs_body_def parseEmails_body_def
  matchAll_def exec_def test_def WIKI_LINK_REGEXP_def URL_REGEXP_def EMAIL_REGEXP_def IMAGE_REGEXP_def
  url_prefix_def url_group_def email_label_def image_extensions_def
  wiki_class_def url_class_def url_final_class_def email_local_class_def is_alnum_def is_alpha_def
  is_digit_def is_space_def class_matches_def lit_matches_def to_upper_def to_lower_def
  is_line_terminator_def matcher.simps matchAll_loop.simps split_def replace_def replaceAll_def group1_def wiki_anchor_def
  isSpecialtyUrl_def parseSpecialtyUrl_def uri_unreserved_def percent_def hex_digit_def utf8_def
  htmlToText_def anchor_body_def decodeURIComponent_def hex_value_def continuation_def code_units_def
  Let_def

text \<open>
  The equations of the matcher for the star and the bounded repetition, and the equation
  of \<open>matchAll_loop\<close>, rewrite a call into a call of the same shape; they are applied by
  hand.
\<close>

declare matcher.simps(6,7) [simp del] matchAll_loop.simps [simp del]

subsection \<open>Round trip\<close>

text \<open>
  Claim C1. Decoding the parsed encoding of a text should give the text back, and the
  decoder should process every hyperlink and every image of the tree. In the first loop
  of \<open>htmlToText\<close> the branches for a link shown as a URL and for a bare wiki-link end
  with \<open>return\<close>, so the function stops at the first such anchor. The line
  \<open>[[A]] [[B]]\<close> is encoded as two anchors; in the tree parsed from them only the first
  anchor is decoded, the second stays an anchor, and the text read back is \<open>[[A]] B\<close>.
  Likewise an image after a bare wiki-link is never replaced with its source.
\<close>

theorem htmlToText_returns_after_first_link:
  \<open>textToHtml 0 (js ''[[A]] [[B]]'') = Inr (js ''<a href="/A">A</a> <a href="/B">B</a>'')
   \<and> htmlToText 0
        [Anchor \<lparr>href = js ''http://localhost/A'', pathname = js ''/A'', innerText = js ''A''\<rparr>,
         Text (js '' ''),
         Anchor \<lparr>href = js ''http://localhost/B'', pathname = js ''/B'', innerText = js ''B''\<rparr>]
       = ([Text (js ''[[A]]''), Text (js '' ''),
           Anchor \<lparr>href = js ''http://localhost/B'', pathname = js ''/B'', innerText = js ''B''\<rparr>],
          0, Return)
   \<and> textContent
        [Text (js ''[[A]]''), Text (js '' ''),
         Anchor \<lparr>href = js ''http://localhost/B'', pathname = js ''/B'', innerText = js ''B''\<rparr>]
       = js ''[[A]] B''
   \<and> textToHtml 0 (js ''[[A]] https://x.com/a.png'')
       = Inr (js ''<a href="/A">A</a> <img src="https://x.com/a.png">'')
   \<and> htmlToText 0
        [Anchor \<lparr>href = js ''http://localhost/A'', pathname = js ''/A'', innerText = js ''A''\<rparr>,
         Text (js '' ''), Img (js ''https://x.com/a.png'')]
       = ([Text (js ''[[A]]''), Text (js '' ''), Img (js ''https://x.com/a.png'')], 0, Return)\<close>
  by (simp add: codec_defs)

subsection \<open>Facts about the matcher\<close>









subsection \<open>The image test\<close>




subsection \<open>Facts about \<open>replace\<close> and \<open>replaceAll\<close>\<close>

lemma startsWith_iff: "startsWith s pat \<longleftrightarrow> (\<exists>q. s = pat @ q)"
  by (induction s pat rule: startsWith.induct) auto

lemma startsWith_append: "startsWith (pat @ q) pat"
  by (simp add: startsWith_iff)

lemma getSubstitution_plain: "36 \<notin> set rep \<Longrightarrow> getSubstitution m p q rep = rep"
  by (induction m p q rep rule: getSubstitution.induct) auto

text \<open>\<open>first_at s pat p q\<close>: the first occurrence of \<open>pat\<close> in \<open>s\<close> lies between \<open>p\<close> and \<open>q\<close>.\<close>

lemma first_occurrence_tail:
  assumes "\<forall>p' q'. c # s = p' @ pat @ q' \<longrightarrow> length (c # p) \<le> length p'"
  shows "\<not> startsWith (c # s) pat" and "\<forall>p' q'. s = p' @ pat @ q' \<longrightarrow> length p \<le> length p'"
proof -
  show "\<not> startsWith (c # s) pat"
  proof
    assume "startsWith (c # s) pat"
    then obtain q' where "c # s = [] @ pat @ q'" by (auto simp: startsWith_iff)
    with assms have "length (c # p) \<le> length ([] :: jsstring)" by blast
    then show False by simp
  qed
  show "\<forall>p' q'. s = p' @ pat @ q' \<longrightarrow> length p \<le> length p'"
  proof (intro allI impI)
    fix p' q' assume "s = p' @ pat @ q'"
    then have "c # s = (c # p') @ pat @ q'" by simp
    with assms have "length (c # p) \<le> length (c # p')" by blast
    then show "length p \<le> length p'" by simp
  qed
qed

lemma replace_from_first:
  assumes "pat \<noteq> []" and "\<forall>p' q'. p @ pat @ q = p' @ pat @ q' \<longrightarrow> length p \<le> length p'"
  shows "replace_from pat rep pre (p @ pat @ q) = p @ getSubstitution pat (rev pre @ p) q rep @ q"
  using assms(2)
proof (induction p arbitrary: pre)
  case Nil
  from assms(1) obtain c t where ct: "pat @ q = c # t" by (cases pat) auto
  have d: "drop (length pat) (c # t) = q"
    using ct by (metis append_eq_conv_conj)
  have s: "startsWith (c # t) pat"
    using startsWith_append[of pat q] ct by simp
  have "replace_from pat rep pre (c # t) = getSubstitution pat (rev pre) q rep @ q"
    using s d by (simp del: startsWith.simps)
  with ct show ?case by simp
next
  case (Cons c p)
  from first_occurrence_tail[of c "p @ pat @ q" pat p] Cons.prems
  have n: "\<not> startsWith (c # p @ pat @ q) pat"
    and f: "\<forall>p' q'. p @ pat @ q = p' @ pat @ q' \<longrightarrow> length p \<le> length p'"
    by simp_all
  from Cons.IH[OF f, of "c # pre"] n show ?case by simp
qed

lemma replaceAll_from_pre:
  "36 \<notin> set rep \<Longrightarrow> replaceAll_from pat rep pre k s = replaceAll_from pat rep pre' k s"
  by (induction s arbitrary: pre pre' k) (auto simp: getSubstitution_plain)

lemma replaceAll_from_skip:
  "k \<le> length s \<Longrightarrow> 36 \<notin> set rep \<Longrightarrow>
     replaceAll_from pat rep pre k s = replaceAll_from pat rep pre 0 (drop k s)"
proof (induction s arbitrary: k pre)
  case Nil
  then show ?case by simp
next
  case (Cons c s)
  show ?case
  proof (cases k)
    case 0
    then show ?thesis by simp
  next
    case (Suc j)
    with Cons.prems have "j \<le> length s" by simp
    from Cons.IH[OF this Cons.prems(2), of "c # pre"] Suc Cons.prems(2) show ?thesis
      using replaceAll_from_pre[of rep pat "c # pre" 0 "drop j s" pre] by simp
  qed
qed

lemma replaceAll_from_first:
  assumes "pat \<noteq> []" and "36 \<notin> set rep"
    and "\<forall>p' q'. p @ pat @ q = p' @ pat @ q' \<longrightarrow> length p \<le> length p'"
  shows "replaceAll_from pat rep pre 0 (p @ pat @ q) = p @ rep @ replaceAll_from pat rep [] 0 q"
  using assms(3)
proof (induction p arbitrary: pre)
  case Nil
  from assms(1) obtain c t where ct: "pat = c # t" by (cases pat) auto
  have "replaceAll_from pat rep pre 0 (c # t @ q)
      = rep @ replaceAll_from pat rep (c # pre) (length t) (t @ q)"
    using startsWith_append[of pat q] ct assms(2)
    by (simp add: getSubstitution_plain del: startsWith.simps)
  also have "replaceAll_from pat rep (c # pre) (length t) (t @ q) = replaceAll_from pat rep (c # pre) 0 q"
    using replaceAll_from_skip[of "length t" "t @ q" rep pat "c # pre"] assms(2) by simp
  also have "\<dots> = replaceAll_from pat rep [] 0 q"
    using assms(2) by (rule replaceAll_from_pre)
  finally show ?case using ct by simp
next
  case (Cons c p)
  from first_occurrence_tail[of c "p @ pat @ q" pat p] Cons.prems
  have n: "\<not> startsWith (c # p @ pat @ q) pat"
    and f: "\<forall>p' q'. p @ pat @ q = p' @ pat @ q' \<longrightarrow> length p \<le> length p'"
    by simp_all
  from Cons.IH[OF f, of "c # pre"] n show ?case by simp
qed

lemma str_includes_iff: "str_includes s pat \<longleftrightarrow> (\<exists>p q. s = p @ pat @ q)"
proof (induction s)
  case Nil
  then show ?case by auto
next
  case (Cons c s)
  show ?case
  proof
    assume "str_includes (c # s) pat"
    then consider "startsWith (c # s) pat" | "str_includes s pat" by auto
    then show "\<exists>p q. c # s = p @ pat @ q"
    proof cases
      case 1
      then obtain q where "c # s = [] @ pat @ q" by (auto simp: startsWith_iff)
      then show ?thesis by blast
    next
      case 2
      with Cons.IH obtain p q where "s = p @ pat @ q" by blast
      then have "c # s = (c # p) @ pat @ q" by simp
      then show ?thesis by blast
    qed
  next
    assume "\<exists>p q. c # s = p @ pat @ q"
    then obtain p q where e: "c # s = p @ pat @ q" by blast
    show "str_includes (c # s) pat"
    proof (cases p)
      case Nil
      with e have "startsWith (c # s) pat" by (simp add: startsWith_iff del: startsWith.simps)
      then show ?thesis by simp
    next
      case (Cons d p')
      with e have "s = p' @ pat @ q" by simp
      with Cons.IH have "str_includes s pat" by blast
      then show ?thesis by simp
    qed
  qed
qed

lemma replace_from_absent:
  "\<not> str_includes s pat \<Longrightarrow> replace_from pat rep pre s = s"
  by (induction s arbitrary: pre) (auto split: if_splits)

lemma replaceAll_from_absent:
  "\<not> str_includes s pat \<Longrightarrow> replaceAll_from pat rep pre 0 s = s"
  by (induction s arbitrary: pre) (auto split: if_splits)

subsection \<open>The shape of a wiki-link match\<close>

lemma matcher_Star_Class_Nil: "matcher ic (Star (Class P)) [] = [[]]"
  by (subst matcher.simps(6)) simp

lemma matcher_Star_Class_Cons:
  "matcher ic (Star (Class P)) (c # t)
     = (if class_matches ic P c then matcher ic (Star (Class P)) t else []) @ [c # t]"
  by (subst matcher.simps(6)) simp

lemma matcher_Star_Class:
  "s' \<in> set (matcher ic (Star (Class P)) s) \<Longrightarrow> \<exists>w. s = w @ s' \<and> list_all (class_matches ic P) w"
proof (induction s)
  case Nil
  then show ?case by (simp add: matcher_Star_Class_Nil)
next
  case (Cons c t)
  show ?case
  proof (cases "s' = c # t")
    case True
    then show ?thesis by (intro exI[of _ "[]"]) simp
  next
    case False
    with Cons.prems have c: "class_matches ic P c" and "s' \<in> set (matcher ic (Star (Class P)) t)"
      by (auto simp: matcher_Star_Class_Cons split: if_splits)
    from Cons.IH[OF this(2)] obtain w where "t = w @ s'" "list_all (class_matches ic P) w" by blast
    with c show ?thesis by (intro exI[of _ "c # w"]) simp
  qed
qed

lemma matcher_wiki_link:
  assumes "s' \<in> set (matcher False (source WIKI_LINK_REGEXP) s)"
  shows "\<exists>b. s = js ''[['' @ b @ js '']]'' @ s' \<and> b \<noteq> [] \<and> list_all wiki_class b"
proof -
  from assms obtain s1 s2 s3 where
    1: "s1 \<in> set (matcher False (Lit (js ''[[''))  s)" and
    2: "s2 \<in> set (matcher False (Class wiki_class) s1)" and
    3: "s3 \<in> set (matcher False (Star (Class wiki_class)) s2)" and
    4: "s' \<in> set (matcher False (Lit (js '']]'')) s3)"
    by (auto simp: WIKI_LINK_REGEXP_def)
  from 1 have a: "s = js ''[['' @ s1"
    by (auto simp: lit_matches_def split: if_splits) (metis append_take_drop_id)
  from 2 obtain c where b: "s1 = c # s2" and c: "wiki_class c"
    by (cases s1) (auto simp: class_matches_def split: if_splits)
  from matcher_Star_Class[OF 3] obtain w where d: "s2 = w @ s3" and w: "list_all wiki_class w"
    by (auto simp: class_matches_def list_all_iff)
  from 4 have e: "s3 = js '']]'' @ s'"
    by (auto simp: lit_matches_def split: if_splits) (metis append_take_drop_id)
  from a b c d w e show ?thesis
    by (intro exI[of _ "c # w"]) simp
qed

lemma exec_from_Some:
  "exec_from ic r i s = Some (j, m) \<Longrightarrow>
     \<exists>s0 s' rest. matcher ic r s0 = s' # rest \<and> m = take (length s0 - length s') s0"
proof (induction s arbitrary: i)
  case Nil
  then show ?case by (auto split: list.splits)
next
  case (Cons c t)
  show ?case
  proof (cases "matcher ic r (c # t)")
    case Nil
    with Cons.prems have "exec_from ic r (Suc i) t = Some (j, m)" by simp
    from Cons.IH[OF this] show ?thesis .
  next
    case (Cons s' rest)
    with Cons.prems have "m = take (length (c # t) - length s') (c # t)" by simp
    with Cons show ?thesis by blast
  qed
qed

lemma matchAll_loop_exec:
  "m \<in> set (matchAll_loop re s lastIndex) \<Longrightarrow> \<exists>i j. exec re s i = Some (j, m)"
proof (induction re s lastIndex rule: matchAll_loop.induct)
  case (1 re s lastIndex)
  show ?case
  proof (cases "exec re s lastIndex")
    case None
    with "1.prems" show ?thesis by (subst (asm) matchAll_loop.simps) simp
  next
    case (Some x)
    obtain j m' where x: "x = (j, m')" by (cases x)
    from "1.prems" Some x have "m = m' \<or> m \<in> set (matchAll_loop re s (if m' = [] then j + 1 else j + length m'))"
      by (subst (asm) matchAll_loop.simps) auto
    then show ?thesis
    proof
      assume "m = m'"
      with Some x show ?thesis by blast
    next
      assume "m \<in> set (matchAll_loop re s (if m' = [] then j + 1 else j + length m'))"
      from "1.IH"[OF Some x[symmetric] this] show ?thesis .
    qed
  qed
qed

lemma wiki_match_shape:
  assumes "m \<in> set (matchAll text WIKI_LINK_REGEXP lastIndex)"
  shows "\<exists>b. m = js ''[['' @ b @ js '']]'' \<and> b \<noteq> [] \<and> list_all wiki_class b"
proof -
  from assms matchAll_loop_exec obtain i j where "exec WIKI_LINK_REGEXP text i = Some (j, m)"
    unfolding matchAll_def by blast
  then have "exec_from False (source WIKI_LINK_REGEXP) i (drop i text) = Some (j, m)"
    by (simp add: exec_def WIKI_LINK_REGEXP_def split: if_splits)
  from exec_from_Some[OF this] obtain s0 s' rest where
    r: "matcher False (source WIKI_LINK_REGEXP) s0 = s' # rest" and m: "m = take (length s0 - length s') s0"
    by blast
  from r have "s' \<in> set (matcher False (source WIKI_LINK_REGEXP) s0)" by simp
  from matcher_wiki_link[OF this] obtain b where
    "s0 = js ''[['' @ b @ js '']]'' @ s'" "b \<noteq> []" "list_all wiki_class b" by blast
  with m show ?thesis by (intro exI[of _ b]) simp
qed

subsection \<open>The anchor of a wiki-link\<close>

lemma percent_no_dollar: "36 \<notin> set (concat (map percent bs))"
  by (induction bs) (auto simp: percent_def hex_digit_def)

lemma encodeURIComponent_no_dollar: "encodeURIComponent t = Inr r \<Longrightarrow> 36 \<notin> set r"
proof (induction t arbitrary: r rule: encodeURIComponent.induct)
  case 1
  then show ?case by simp
next
  case (2 c t)
  show ?case
  proof (cases "uri_unreserved c")
    case True
    with "2.prems" obtain r' where "encodeURIComponent t = Inr r'" "r = c # r'"
      by (auto split: sum.splits)
    with "2.IH"(1)[OF True] True show ?thesis
      by (auto simp: uri_unreserved_def is_alpha_def is_digit_def js_def)
  next
    case False
    show ?thesis
    proof (cases "55296 \<le> c \<and> c \<le> 56319")
      case True
      with False "2.prems" obtain d t' r' where "t = d # t'" "56320 \<le> d \<and> d \<le> 57343"
          "encodeURIComponent t' = Inr r'"
          "r = concat (map percent (utf8 ((c - 55296) * 1024 + (d - 56320) + 65536))) @ r'"
        by (auto split: sum.splits list.splits if_splits)
      with "2.IH"(2)[of d t' r'] False True show ?thesis
        using percent_no_dollar by auto
    next
      case nh: False
      with False "2.prems" obtain r' where "encodeURIComponent t = Inr r'"
          "r = concat (map percent (utf8 c)) @ r'" "\<not> (56320 \<le> c \<and> c \<le> 57343)"
        by (auto split: sum.splits if_splits)
      with "2.IH"(3)[of r'] False nh show ?thesis
        using percent_no_dollar by auto
    qed
  qed
qed

lemma wiki_class_no_surrogate: "wiki_class c \<Longrightarrow> c < 55296 \<or> 57343 < c"
  by (auto simp: wiki_class_def is_alpha_def is_digit_def is_space_def js_def)

lemma wiki_class_no_dollar: "wiki_class c \<Longrightarrow> c \<noteq> 36"
  by (auto simp: wiki_class_def is_alpha_def is_digit_def is_space_def js_def)

lemma encodeURIComponent_wiki: "list_all wiki_class t \<Longrightarrow> \<exists>r. encodeURIComponent t = Inr r"
proof (induction t)
  case Nil
  then show ?case by simp
next
  case (Cons c t)
  then obtain r where "encodeURIComponent t = Inr r" by auto
  moreover from Cons.prems have "c < 55296 \<or> 57343 < c"
    by (simp add: wiki_class_no_surrogate)
  ultimately show ?case by auto
qed

lemma split_acc_subset: "x \<in> set (split_acc sep acc s) \<Longrightarrow> set x \<subseteq> set acc \<union> set s"
proof (induction s arbitrary: acc)
  case Nil
  then show ?case by simp
next
  case (Cons c s)
  show ?case
  proof (cases "c = sep")
    case True
    with Cons.prems have "x = rev acc \<or> x \<in> set (split_acc sep [] s)" by simp
    then show ?thesis
    proof
      assume "x = rev acc"
      then show ?thesis by auto
    next
      assume "x \<in> set (split_acc sep [] s)"
      from Cons.IH[OF this] show ?thesis by auto
    qed
  next
    case False
    with Cons.prems have "x \<in> set (split_acc sep (c # acc) s)" by simp
    from Cons.IH[OF this] show ?thesis by auto
  qed
qed

lemma split_subset: "x \<in> set (split sep s) \<Longrightarrow> set x \<subseteq> set s"
  using split_acc_subset[of x sep "[]" s] by (simp add: split_def)

lemma wiki_anchor_plain:
  assumes "list_all wiki_class target" and "list_all wiki_class shown"
  shows "\<exists>a. wiki_anchor target shown = Inr a \<and> 36 \<notin> set a"
proof -
  from encodeURIComponent_wiki[OF assms(1)] obtain r where r: "encodeURIComponent target = Inr r"
    by blast
  from encodeURIComponent_no_dollar[OF r] have "36 \<notin> set r" .
  moreover from assms(2) have "36 \<notin> set shown"
    using wiki_class_no_dollar by (auto simp: list_all_iff)
  ultimately show ?thesis
    using r by (simp add: wiki_anchor_def js_def)
qed

lemma parseWikiLinks_loop_step:
  assumes "m \<in> set (matchAll line WIKI_LINK_REGEXP lastIndex)"
  shows "\<exists>a. 36 \<notin> set a
     \<and> (\<forall>rest s. parseWikiLinks_loop (m # rest) s = parseWikiLinks_loop rest (replaceAll s m a))"
proof -
  from wiki_match_shape[OF assms] obtain b where m: "m = js ''[['' @ b @ js '']]''"
      and b: "list_all wiki_class b" by blast
  from m have g: "group1 m = b" by (simp add: group1_def js_def)
  let ?parts = "split 124 b"
  have pieces: "list_all wiki_class x" if "x \<in> set ?parts" for x
    using split_subset[OF that] b by (auto simp: list_all_iff)
  show ?thesis
  proof (cases "1 < length ?parts")
    case True
    then have "?parts ! 1 \<in> set ?parts" "?parts ! 0 \<in> set ?parts"
      by (auto intro: nth_mem)
    then have "list_all wiki_class (?parts ! 1)" "list_all wiki_class (?parts ! 0)"
      using pieces by blast+
    from wiki_anchor_plain[OF this] obtain a where
      "wiki_anchor (?parts ! 1) (?parts ! 0) = Inr a" "36 \<notin> set a" by blast
    with True g show ?thesis by (intro exI[of _ a]) (simp add: Let_def)
  next
    case False
    from wiki_anchor_plain[OF b b] obtain a where "wiki_anchor b b = Inr a" "36 \<notin> set a" by blast
    with False g show ?thesis by (intro exI[of _ a]) (simp add: Let_def)
  qed
qed

lemma parseWikiLinks_loop_single:
  assumes "m \<in> set (matchAll line WIKI_LINK_REGEXP lastIndex)"
  shows "\<exists>a. 36 \<notin> set a \<and> parseWikiLinks_loop [m] s = Inr (replaceAll s m a)"
  using parseWikiLinks_loop_step[OF assms] by auto

lemma parseWikiLinks_loop_total:
  "set ms \<subseteq> set (matchAll line WIKI_LINK_REGEXP lastIndex) \<Longrightarrow> \<exists>r. parseWikiLinks_loop ms s = Inr r"
proof (induction ms arbitrary: s)
  case Nil
  then show ?case by simp
next
  case (Cons m ms)
  then have "m \<in> set (matchAll line WIKI_LINK_REGEXP lastIndex)" by simp
  from parseWikiLinks_loop_step[OF this] obtain a where
    "parseWikiLinks_loop (m # ms) s = parseWikiLinks_loop ms (replaceAll s m a)" by blast
  moreover from Cons.prems have "set ms \<subseteq> set (matchAll line WIKI_LINK_REGEXP lastIndex)" by simp
  from Cons.IH[OF this, of "replaceAll s m a"] obtain r where
    "parseWikiLinks_loop ms (replaceAll s m a) = Inr r" by blast
  ultimately show ?case by simp
qed

lemma parseWikiLinks_total: "\<exists>linked. parseWikiLinks line = Inr linked"
  unfolding parseWikiLinks_def by (rule parseWikiLinks_loop_total[of _ line 0]) simp

subsection \<open>Which occurrence a match replaces\<close>

lemma first_from_butlast:
  assumes "m \<noteq> []" and "\<not> str_includes (p @ butlast m) m"
  shows "\<forall>p' q'. p @ m @ q = p' @ m @ q' \<longrightarrow> length p \<le> length p'"
proof (intro allI impI, rule ccontr)
  fix p' q'
  assume e: "p @ m @ q = p' @ m @ q'" and "\<not> length p \<le> length p'"
  then have l: "length p' + length m \<le> length (p @ butlast m)"
    using assms(1) by simp
  have "p @ m @ q = (p @ butlast m) @ ([last m] @ q)"
    using assms(1) by simp
  then have "take (length p' + length m) (p @ m @ q) = take (length p' + length m) (p @ butlast m)"
    using l by (metis append.right_neutral diff_is_0_eq take_0 take_append)
  moreover have "take (length p' + length m) (p @ m @ q) = p' @ m"
    unfolding e by simp
  ultimately have "p @ butlast m = p' @ m @ drop (length p' + length m) (p @ butlast m)"
    by (metis append.assoc append_take_drop_id)
  with assms(2) show False
    unfolding str_includes_iff by blast
qed

lemma replace_first:
  assumes "m \<noteq> []" and "\<not> str_includes (p @ butlast m) m"
  shows "replace (p @ m @ q) m rep = p @ getSubstitution m p q rep @ q"
  using replace_from_first[where pre = "[]" and rep = rep and q = q, OF assms(1) first_from_butlast[OF assms]]
  by (simp add: replace_def)

lemma replaceAll_first:
  assumes "m \<noteq> []" and "\<not> str_includes (p @ butlast m) m" and "36 \<notin> set rep"
  shows "replaceAll (p @ m @ q) m rep = p @ rep @ replaceAll q m rep"
  using replaceAll_from_first[where pre = "[]" and q = q, OF assms(1,3) first_from_butlast[OF assms(1,2)]]
  by (simp add: replaceAll_def)

text \<open>
  Claim C8, as stated: every matched span, wiki-links included, is replaced with
  first-occurrence semantics. It fails for wiki-links, which \<open>parseWikiLinks\<close> replaces
  with \<open>replaceAll\<close>: processing the one match \<open>[[a]]\<close> on the line \<open>[[a]] [[a]]\<close> rewrites
  both occurrences, where \<open>replace\<close> would rewrite the first only.
\<close>

theorem wiki_link_replaces_all_occurrences:
  \<open>parseWikiLinks_loop [js ''[[a]]''] (js ''[[a]] [[a]]'')
     = Inr (js ''<a href="/a">a</a> <a href="/a">a</a>'')
   \<and> replace (js ''[[a]] [[a]]'') (js ''[[a]]'') (js ''<a href="/a">a</a>'')
     = js ''<a href="/a">a</a> [[a]]''\<close>
  by (simp add: codec_defs)

text \<open>
  Claim C8, amended. Let the text built so far be \<open>p @ m @ q\<close> with the first occurrence
  of the matched text \<open>m\<close> between \<open>p\<close> and \<open>q\<close>. Processing \<open>m\<close> as a URL match or as an
  email match replaces that occurrence only: \<open>p\<close> and \<open>q\<close> are kept, whatever \<open>q\<close> contains.
  Processing \<open>m\<close> as a wiki-link match replaces that occurrence and goes on to replace
  every occurrence in \<open>q\<close>. On a text in which \<open>m\<close> does not occur, processing \<open>m\<close> changes
  nothing.
\<close>

theorem replacement_of_matches:
  assumes "m \<noteq> []" and "\<not> str_includes (p @ butlast m) m"
  shows \<open>parseURLs_body (p @ m @ q) m
           = p @ getSubstitution m p q
                   (if isSpecialtyUrl m then parseSpecialtyUrl m
                    else js ''<a href="'' @ m @ js ''">'' @ m @ js ''</a>'') @ q
       \<and> parseEmails_body (p @ m @ q) m
           = p @ getSubstitution m p q (js ''<a href="mailto:'' @ m @ js ''">'' @ m @ js ''</a>'') @ q
       \<and> (m \<in> set (matchAll line WIKI_LINK_REGEXP 0) \<longrightarrow>
            (\<exists>a. 36 \<notin> set a
               \<and> parseWikiLinks_loop [m] (p @ m @ q) = Inr (p @ a @ replaceAll q m a)))
       \<and> (\<not> str_includes t m \<longrightarrow>
            parseURLs_body t m = t \<and> parseEmails_body t m = t
            \<and> (m \<in> set (matchAll line WIKI_LINK_REGEXP 0) \<longrightarrow> parseWikiLinks_loop [m] t = Inr t))\<close>
proof -
  have u: \<open>parseURLs_body (p @ m @ q) m
           = p @ getSubstitution m p q
                   (if isSpecialtyUrl m then parseSpecialtyUrl m
                    else js ''<a href="'' @ m @ js ''">'' @ m @ js ''</a>'') @ q\<close>
    by (simp add: parseURLs_body_def replace_first[OF assms])
  have e: \<open>parseEmails_body (p @ m @ q) m
           = p @ getSubstitution m p q (js ''<a href="mailto:'' @ m @ js ''">'' @ m @ js ''</a>'') @ q\<close>
    by (simp add: parseEmails_body_def replace_first[OF assms])
  have w: "\<exists>a. 36 \<notin> set a \<and> parseWikiLinks_loop [m] (p @ m @ q) = Inr (p @ a @ replaceAll q m a)"
    if "m \<in> set (matchAll line WIKI_LINK_REGEXP 0)"
  proof -
    from parseWikiLinks_loop_single[OF that, of "p @ m @ q"] obtain a where
      "36 \<notin> set a" "parseWikiLinks_loop [m] (p @ m @ q) = Inr (replaceAll (p @ m @ q) m a)" by blast
    with replaceAll_first[OF assms this(1), of q] show ?thesis by auto
  qed
  have n: "parseURLs_body t m = t \<and> parseEmails_body t m = t
        \<and> (m \<in> set (matchAll line WIKI_LINK_REGEXP 0) \<longrightarrow> parseWikiLinks_loop [m] t = Inr t)"
    if a: "\<not> str_includes t m"
  proof -
    have "m \<in> set (matchAll line WIKI_LINK_REGEXP 0) \<longrightarrow> parseWikiLinks_loop [m] t = Inr t"
    proof
      assume "m \<in> set (matchAll line WIKI_LINK_REGEXP 0)"
      from parseWikiLinks_loop_single[OF this, of t] a show "parseWikiLinks_loop [m] t = Inr t"
        by (auto simp: replaceAll_def replaceAll_from_absent)
    qed
    with a show ?thesis
      by (simp add: parseURLs_body_def parseEmails_body_def replace_def replace_from_absent)
  qed
  from u e w n show ?thesis by blast
qed

theorem replacement_of_matches_witness:
  \<open>parseURLs_body (js ''see www.a.b and www.a.b'') (js ''www.a.b'')
     = js ''see <a href="www.a.b">www.a.b</a> and www.a.b''
   \<and> parseEmails_body (js ''to a@b.c, a@b.c'') (js ''a@b.c'')
     = js ''to <a href="mailto:a@b.c">a@b.c</a>, a@b.c''
   \<and> (\<exists>a. 36 \<notin> set a
        \<and> parseWikiLinks_loop [js ''[[a]]''] (js ''[[a]] [[a]]'')
            = Inr (a @ replaceAll (js '' [[a]]'') (js ''[[a]]'') a))\<close>
proof -
  have m1: "js ''www.a.b'' \<noteq> []" and m2: "js ''a@b.c'' \<noteq> []" and m3: "js ''[[a]]'' \<noteq> []"
    by (simp_all add: js_def)
  have f1: "\<not> str_includes (js ''see '' @ butlast (js ''www.a.b'')) (js ''www.a.b'')"
    and f2: "\<not> str_includes (js ''to '' @ butlast (js ''a@b.c'')) (js ''a@b.c'')"
    and f3: "\<not> str_includes ([] @ butlast (js ''[[a]]'')) (js ''[[a]]'')"
    by (simp_all add: js_def)
  have i: "js ''[[a]]'' \<in> set (matchAll (js ''[[a]] [[a]]'') WIKI_LINK_REGEXP 0)"
    by (simp add: codec_defs)
  have s1: "\<not> isSpecialtyUrl (js ''www.a.b'')"
    by (simp add: codec_defs)
  have g1: \<open>getSubstitution (js ''www.a.b'') (js ''see '') (js '' and www.a.b'')
              (js ''<a href="'' @ js ''www.a.b'' @ js ''">'' @ js ''www.a.b'' @ js ''</a>'')
            = js ''<a href="www.a.b">www.a.b</a>''\<close>
    by (simp add: js_def)
  have g2: \<open>getSubstitution (js ''a@b.c'') (js ''to '') (js '', a@b.c'')
              (js ''<a href="mailto:'' @ js ''a@b.c'' @ js ''">'' @ js ''a@b.c'' @ js ''</a>'')
            = js ''<a href="mailto:a@b.c">a@b.c</a>''\<close>
    by (simp add: js_def)
  from replacement_of_matches[OF m1 f1, of "js '' and www.a.b''"] s1 g1
  have a: \<open>parseURLs_body (js ''see www.a.b and www.a.b'') (js ''www.a.b'')
     = js ''see <a href="www.a.b">www.a.b</a> and www.a.b''\<close>
    by (simp add: js_def)
  from replacement_of_matches[OF m2 f2, of "js '', a@b.c''"] g2
  have b: \<open>parseEmails_body (js ''to a@b.c, a@b.c'') (js ''a@b.c'')
     = js ''to <a href="mailto:a@b.c">a@b.c</a>, a@b.c''\<close>
    by (simp add: js_def)
  from replacement_of_matches[OF m3 f3, of "js '' [[a]]'' " "js ''[[a]] [[a]]''"] i
  have c: "\<exists>a. 36 \<notin> set a
        \<and> parseWikiLinks_loop [js ''[[a]]''] (js ''[[a]] [[a]]'')
            = Inr (a @ replaceAll (js '' [[a]]'') (js ''[[a]]'') a)"
    by (simp add: js_def)
  from a b c show ?thesis by blast
qed

subsection \<open>The stages of the encoder\<close>

lemma map_throwing_total:
  "(\<And>x. \<exists>y. f x = Inr y) \<Longrightarrow> \<exists>ys. map_throwing f xs = Inr ys"
proof (induction xs)
  case Nil
  then show ?case by simp
next
  case (Cons x xs)
  from Cons.prems obtain y where "f x = Inr y" by blast
  moreover from Cons obtain ys where "map_throwing f xs = Inr ys" by blast
  ultimately show ?case by simp
qed

lemma map_throwing_then:
  "map_throwing f xs = Inr ys \<Longrightarrow>
     map_throwing (\<lambda>x. case f x of Inl e \<Rightarrow> Inl e | Inr y \<Rightarrow> Inr (g y)) xs = Inr (map g ys)"
  by (induction xs arbitrary: ys) (auto split: sum.splits)

text \<open>
  Claim C6, as stated: every span category is matched against the unmodified text of the
  line, and the URL and email patterns never match text that an earlier replacement
  introduced. It fails: \<open>parseEmails\<close> searches the text that \<open>parseURLs\<close> returned. On the
  line \<open>http://a.b/c@d.e\<close>, which has no wiki-link, the URL step produces an anchor that
  holds the URL twice; the unmodified line has one email match, the text searched has
  two, the first inside the \<open>href\<close> attribute, and the replacements land inside the markup.
\<close>

theorem email_matched_in_url_markup:
  \<open>parseWikiLinks (js ''http://a.b/c@d.e'') = Inr (js ''http://a.b/c@d.e'')
   \<and> parseURLs 0 (js ''http://a.b/c@d.e'') = js ''<a href="http://a.b/c@d.e">http://a.b/c@d.e</a>''
   \<and> matchAll (js ''<a href="http://a.b/c@d.e">http://a.b/c@d.e</a>'') EMAIL_REGEXP 0
       = [js ''//a.b/c@d.e'', js ''//a.b/c@d.e'']
   \<and> matchAll (js ''http://a.b/c@d.e'') EMAIL_REGEXP 0 = [js ''//a.b/c@d.e'']
   \<and> parseEmails (js ''<a href="http://a.b/c@d.e">http://a.b/c@d.e</a>'')
       = js ''<a href="http:<a href="mailto:<a href="mailto://a.b/c@d.e">//a.b/c@d.e</a>">//a.b/c@d.e</a>">http://a.b/c@d.e</a>''\<close>
  by (simp add: codec_defs)

text \<open>
  Claim C6, amended. The encoder handles a text line by line and raises no exception.
  On each line it runs the three steps in the fixed order wiki-links, URLs (image URLs
  become embeds), emails. Each step finds all its matches before it replaces any of
  them, in the text it is handed: the wiki-link pattern is matched against the
  unmodified line, the URL pattern against the output of the wiki-link step, and the
  email pattern against the output of the URL step.
\<close>

theorem encoder_stages:
  "\<exists>linked.
     map_throwing (\<lambda>line. parseWikiLinks_loop (matchAll line WIKI_LINK_REGEXP 0) line) (split 10 text)
       = Inr linked
     \<and> textToHtml lastIndex text
       = Inr (join (js ''<br>'')
           (map (\<lambda>l. let u = foldl parseURLs_body l (matchAll l URL_REGEXP lastIndex)
                      in foldl parseEmails_body u (matchAll u EMAIL_REGEXP 0))
              linked))"
proof -
  have "\<exists>y. parseWikiLinks line = Inr y" for line
    by (rule parseWikiLinks_total)
  from map_throwing_total[of parseWikiLinks, OF this] obtain linked where
    l: "map_throwing parseWikiLinks (split 10 text) = Inr linked" by blast
  have e: "encode_line lastIndex
      = (\<lambda>line. case parseWikiLinks line of Inl e \<Rightarrow> Inl e
                 | Inr y \<Rightarrow> Inr (parseEmails (parseURLs lastIndex y)))"
    by (rule ext) (simp add: encode_line_def)
  have "map_throwing (encode_line lastIndex) (split 10 text)
      = Inr (map (\<lambda>y. parseEmails (parseURLs lastIndex y)) linked)"
    unfolding e by (rule map_throwing_then[OF l])
  then have "textToHtml lastIndex text
      = Inr (join (js ''<br>'') (map (\<lambda>y. parseEmails (parseURLs lastIndex y)) linked))"
    by (simp add: textToHtml_def)
  moreover have "(\<lambda>y. parseEmails (parseURLs lastIndex y))
      = (\<lambda>l. let u = foldl parseURLs_body l (matchAll l URL_REGEXP lastIndex)
              in foldl parseEmails_body u (matchAll u EMAIL_REGEXP 0))"
    by (rule ext) (simp add: parseEmails_def parseURLs_def Let_def)
  moreover have "parseWikiLinks = (\<lambda>line. parseWikiLinks_loop (matchAll line WIKI_LINK_REGEXP 0) line)"
    by (rule ext) (simp add: parseWikiLinks_def)
  ultimately show ?thesis using l by auto
qed

theorem encoder_stages_witness:
  \<open>textToHtml 0 (js ''to [[Home|home]]'' @ [10] @ js ''or www.a.b'')
     = Inr (js ''to <a href="/home">Home</a><br>or <a href="www.a.b">www.a.b</a>'')\<close>
proof -
  let ?text = "js ''to [[Home|home]]'' @ [10] @ js ''or www.a.b''"
  from encoder_stages[of ?text 0] obtain linked where
    l: "map_throwing (\<lambda>line. parseWikiLinks_loop (matchAll line WIKI_LINK_REGEXP 0) line) (split 10 ?text)
        = Inr linked"
    and t: "textToHtml 0 ?text
       = Inr (join (js ''<br>'')
           (map (\<lambda>l. let u = foldl parseURLs_body l (matchAll l URL_REGEXP 0)
                      in foldl parseEmails_body u (matchAll u EMAIL_REGEXP 0))
              linked))"
    by blast
  have s: "split 10 ?text = [js ''to [[Home|home]]'', js ''or www.a.b'']"
    by (simp add: split_def js_def)
  have w1: \<open>parseWikiLinks_loop (matchAll (js ''to [[Home|home]]'') WIKI_LINK_REGEXP 0) (js ''to [[Home|home]]'')
      = Inr (js ''to <a href="/home">Home</a>'')\<close>
    by (simp add: codec_defs)
  have w2: \<open>parseWikiLinks_loop (matchAll (js ''or www.a.b'') WIKI_LINK_REGEXP 0) (js ''or www.a.b'')
      = Inr (js ''or www.a.b'')\<close>
    by (simp add: codec_defs)
  from l s w1 w2 have linked: \<open>linked = [js ''to <a href="/home">Home</a>'', js ''or www.a.b'']\<close>
    by simp
  have u1: \<open>matchAll (js ''to <a href="/home">Home</a>'') URL_REGEXP 0 = []\<close>
    by (simp add: codec_defs)
  have e1: \<open>matchAll (js ''to <a href="/home">Home</a>'') EMAIL_REGEXP 0 = []\<close>
    by (simp add: codec_defs)
  have u2: \<open>foldl parseURLs_body (js ''or www.a.b'') (matchAll (js ''or www.a.b'') URL_REGEXP 0)
      = js ''or <a href="www.a.b">www.a.b</a>''\<close>
    by (simp add: codec_defs)
  have e2: \<open>matchAll (js ''or <a href="www.a.b">www.a.b</a>'') EMAIL_REGEXP 0 = []\<close>
    by (simp add: codec_defs)
  from t linked u1 e1 u2 e2 show ?thesis
    by (simp add: js_def)
qed

end
